theory Spec2Isabelle
  imports Main "HOL-Library.Word" "HOL-Library.Char_ord" "HOL-Library.List_Lexorder"
begin

section \<open>bencode.hpp: the data model\<close>

text \<open>
  A shallow embedding of \<^verbatim>\<open>include/bencode.hpp\<close>.

  \<^item> The iterator pair \<^verbatim>\<open>(begin, end)\<close> over the input is the list of bytes that are still
    unread: \<^verbatim>\<open>begin == end\<close> is the empty list, \<^verbatim>\<open>*begin\<close> is the head, \<^verbatim>\<open>++begin\<close> is the
    tail. Every decoding function returns the advanced \<^verbatim>\<open>begin\<close> beside its value.
  \<^item> \<^verbatim>\<open>integer = long long\<close> and \<^verbatim>\<open>std::size_t\<close> are 64-bit words. Arithmetic on them wraps
    modulo \<open>2 ^ 64\<close>; for the signed type that is what two's complement hardware computes
    where the C++ standard leaves signed overflow undefined.
  \<^item> Every \<^verbatim>\<open>throw\<close> is a value of type \<open>error\<close>, returned as \<open>Inl\<close>; there is one
    constructor for each message the header throws.
  \<^item> Dereferencing or advancing an iterator outside the range is undefined behaviour in
    C++. The model makes it the outcome \<open>out_of_bounds\<close>, so that it is visible and is
    never mistaken for a thrown exception or a returned value.
  \<^item> Memory is limited where the header asks for an amount that it reads from the
    input, in \<^verbatim>\<open>std::string value(len, 0)\<close>: the decoding functions take the largest
    size \<open>cap\<close> for which that constructor succeeds. The other allocations (the
    elements of a list or map) and the depth of the recursion are not limited.
\<close>

datatype error =
    unexpected_end_of_string
  | expected_e
  | expected_colon
  | expected_string_token
  | duplicated_key string
  | unexpected_type
  | length_error
  | assertion_failed
  | out_of_bounds

text \<open>
  The constructors, in order, are the header's
  \<^verbatim>\<open>invalid_argument("unexpected end of string")\<close>, \<^verbatim>\<open>invalid_argument("expected 'e'")\<close>,
  \<^verbatim>\<open>invalid_argument("expected ':'")\<close>, \<^verbatim>\<open>invalid_argument("expected string token")\<close>,
  \<^verbatim>\<open>invalid_argument("duplicated key in dict: " + key)\<close> and
  \<^verbatim>\<open>invalid_argument("unexpected type")\<close>; then the exception of the standard library
  when \<^verbatim>\<open>std::string(len, 0)\<close> cannot be constructed (\<^verbatim>\<open>std::length_error\<close> above
  \<^verbatim>\<open>max_size()\<close>, \<^verbatim>\<open>std::bad_alloc\<close> when the memory cannot be had); a failed
  \<^verbatim>\<open>assert\<close>, which stops the program; and last the undefined behaviour described
  above.

  \<^verbatim>\<open>any\<close> holds what the decoder puts into it: nothing (\<^verbatim>\<open>any()\<close>), an \<^verbatim>\<open>integer\<close>, a
  \<^verbatim>\<open>string\<close>, a \<^verbatim>\<open>list\<close>, a \<^verbatim>\<open>dict\<close>, and in view mode a \<^verbatim>\<open>string_view\<close> or a
  \<^verbatim>\<open>dict_view\<close>. A \<^verbatim>\<open>std::map\<close> is the list of its entries in iteration order, that is, in
  strictly ascending key order (bytes compared as unsigned values, a proper prefix
  first); \<open>map_insert\<close> below keeps it so.
\<close>

type_synonym 'v cmap = "(string \<times> 'v) list"

datatype any =
    Empty
  | Integer "64 word"
  | String string
  | List "any list"
  | Dict "any cmap"
  | StringView string
  | DictView "any cmap"

text \<open>
  The iterator category of the input selects the string reader at compile time:
  \<^verbatim>\<open>std::forward_iterator_tag\<close> (and everything above it) or \<^verbatim>\<open>std::input_iterator_tag\<close>.
\<close>

datatype iterator_category = input_iterator | forward_iterator

section \<open>The decoder\<close>

text \<open>
  \<^verbatim>\<open>std::isdigit\<close> in the "C" locale: the ten bytes \<^verbatim>\<open>'0'\<close> .. \<^verbatim>\<open>'9'\<close>. (The header
  passes a \<^verbatim>\<open>char\<close>; for a byte of \<^verbatim>\<open>0x80\<close> or more, negative where \<^verbatim>\<open>char\<close> is signed, the
  C libraries in use answer false, as the model does.)
\<close>

definition isdigit :: "char \<Rightarrow> bool" where
  "isdigit c = (48 \<le> (of_char c :: nat) \<and> (of_char c :: nat) \<le> 57)"

text \<open>
  The digit loop of \<^verbatim>\<open>decode_int_real\<close>:
  \<^verbatim>\<open>for(; begin != end && std::isdigit(*begin); ++begin) value = value * 10 + *begin - '0';\<close>
\<close>

fun int_digits :: "64 word \<Rightarrow> string \<Rightarrow> 64 word \<times> string" where
  "int_digits val [] = (val, [])"
| "int_digits val (c # cs) =
     (if isdigit c then int_digits (val * 10 + of_char c - 48) cs else (val, c # cs))"

text \<open>
  \<^verbatim>\<open>decode_int_real\<close>. It starts with \<^verbatim>\<open>assert(*begin == 'i')\<close>. After
  \<^verbatim>\<open>++begin\<close> the source evaluates \<^verbatim>\<open>*begin == '-'\<close> with no test of
  \<^verbatim>\<open>begin != end\<close>: on an exhausted input this reads the end position. The value starts
  at 0 and nothing requires the digit loop to run at least once.
\<close>

definition decode_int_real :: "string \<Rightarrow> error + 64 word \<times> string" where
  "decode_int_real inp =
     (case inp of
        [] \<Rightarrow> Inl out_of_bounds
      | c0 # b1 \<Rightarrow>
          if c0 \<noteq> CHR ''i'' then Inl assertion_failed
          else
            (case b1 of
               [] \<Rightarrow> Inl out_of_bounds
             | c1 # b1' \<Rightarrow>
                 (let positive = (c1 \<noteq> CHR ''-'');
                      b2 = (if positive then b1 else b1');
                      (val, b3) = int_digits 0 b2
                  in case b3 of
                       [] \<Rightarrow> Inl unexpected_end_of_string
                     | c3 # b4 \<Rightarrow>
                         if c3 \<noteq> CHR ''e'' then Inl expected_e
                         else Inr (if positive then val else - val, b4))))"

definition decode_int :: "bool \<Rightarrow> string \<Rightarrow> error + 64 word \<times> string" where
  "decode_int view inp = decode_int_real inp"

text \<open>
  \<^verbatim>\<open>std::string value(len, 0)\<close>, the allocation in the two copying readers. It
  succeeds up to the size \<open>cap\<close>, which is at most \<^verbatim>\<open>max_size()\<close> and is less when memory
  is short; a request of \<open>2 ^ 63\<close> bytes or more, negative as a \<^verbatim>\<open>std::ptrdiff_t\<close>,
  fails whatever \<open>cap\<close> is. \<open>string_max_size\<close> is \<^verbatim>\<open>max_size()\<close> in libstdc++ on a
  64-bit platform, the limit when memory is plentiful; the examples use it.
\<close>

definition string_alloc_fails :: "nat \<Rightarrow> 64 word \<Rightarrow> bool" where
  "string_alloc_fails cap len = (sint len < 0 \<or> cap < unat len)"

definition string_max_size :: nat where
  "string_max_size = 2 ^ 62 - 1"

text \<open>
  \<^verbatim>\<open>str_reader<false>::call(..., std::forward_iterator_tag)\<close>: the remaining length is
  compared with \<^verbatim>\<open>static_cast<std::ptrdiff_t>(len)\<close>, the length read as a signed
  64-bit number, before the string is allocated. A length of \<open>2 ^ 63\<close> or more is
  negative there and passes the test; the allocation then fails.
\<close>

definition str_reader_forward :: "nat \<Rightarrow> string \<Rightarrow> 64 word \<Rightarrow> error + string \<times> string" where
  "str_reader_forward cap inp len =
     (if int (length inp) < sint len then Inl unexpected_end_of_string
      else if string_alloc_fails cap len then Inl length_error
      else Inr (take (unat len) inp, drop (unat len) inp))"

text \<open>
  \<^verbatim>\<open>str_reader<false>::call(..., std::input_iterator_tag)\<close>: the string is allocated
  first, \<^verbatim>\<open>std::string value(len, 0)\<close>, before any test of the input, and then filled
  byte by byte,
  \<^verbatim>\<open>for(Size i = 0; i < len; i++) { if(begin == end) throw ...; value[i] = *begin; ++begin; }\<close>
\<close>

function str_reader_loop :: "nat \<Rightarrow> nat \<Rightarrow> string \<Rightarrow> string \<Rightarrow> error + string \<times> string" where
  "str_reader_loop i len val inp =
     (if i < len then
        (case inp of
           [] \<Rightarrow> Inl unexpected_end_of_string
         | c # b \<Rightarrow> str_reader_loop (Suc i) len (val[i := c]) b)
      else Inr (val, inp))"
  by pat_completeness auto
termination
  by (relation "measure (\<lambda>(i, len, val, inp). len - i)") auto

declare str_reader_loop.simps [simp del]

definition str_reader_input :: "nat \<Rightarrow> string \<Rightarrow> 64 word \<Rightarrow> error + string \<times> string" where
  "str_reader_input cap inp len =
     (if string_alloc_fails cap len then Inl length_error
      else str_reader_loop 0 (unat len) (replicate (unat len) (CHR 0x00)) inp)"

text \<open>
  \<^verbatim>\<open>str_reader<true>\<close>, the view mode: the same test, then
  \<^verbatim>\<open>string_view value(begin, len); std::advance(begin, len);\<close>. Nothing is allocated, so a
  length that is negative as a \<^verbatim>\<open>ptrdiff_t\<close> moves \<^verbatim>\<open>begin\<close> out of the input.
\<close>

definition str_reader_view :: "string \<Rightarrow> 64 word \<Rightarrow> error + string \<times> string" where
  "str_reader_view inp len =
     (if int (length inp) < sint len then Inl unexpected_end_of_string
      else if sint len < 0 then Inl out_of_bounds
      else Inr (take (unat len) inp, drop (unat len) inp))"

definition str_reader ::
  "bool \<Rightarrow> nat \<Rightarrow> iterator_category \<Rightarrow> string \<Rightarrow> 64 word \<Rightarrow> error + string \<times> string" where
  "str_reader view cap cat inp len =
     (if view then str_reader_view inp len
      else case cat of
             forward_iterator \<Rightarrow> str_reader_forward cap inp len
           | input_iterator \<Rightarrow> str_reader_input cap inp len)"

text \<open>
  The length loop of \<^verbatim>\<open>decode_str\<close>, on \<^verbatim>\<open>std::size_t len\<close>:
  \<^verbatim>\<open>for(; begin != end && std::isdigit(*begin); ++begin) len = len * 10 + *begin - '0';\<close>
\<close>

fun len_digits :: "64 word \<Rightarrow> string \<Rightarrow> 64 word \<times> string" where
  "len_digits len [] = (len, [])"
| "len_digits len (c # cs) =
     (if isdigit c then len_digits (len * 10 + of_char c - 48) cs else (len, c # cs))"

text \<open>
  \<^verbatim>\<open>decode_str\<close>. It starts with \<^verbatim>\<open>assert(std::isdigit(*begin))\<close>.
\<close>

definition decode_str :: "bool \<Rightarrow> nat \<Rightarrow> iterator_category \<Rightarrow> string \<Rightarrow> error + string \<times> string" where
  "decode_str view cap cat inp =
     (case inp of
        [] \<Rightarrow> Inl out_of_bounds
      | c0 # _ \<Rightarrow>
          if \<not> isdigit c0 then Inl assertion_failed
          else
            (let (len, b1) = len_digits 0 inp
             in case b1 of
                  [] \<Rightarrow> Inl unexpected_end_of_string
                | c # b2 \<Rightarrow>
                    if c \<noteq> CHR '':'' then Inl expected_colon
                    else str_reader view cap cat b2 len))"

text \<open>
  \<^verbatim>\<open>std::map::emplace\<close>: when the key is present the map is unchanged and the result is
  the entry found, with \<^verbatim>\<open>second == false\<close>; otherwise the entry is inserted at its place
  in the key order. The result is the map, \<^verbatim>\<open>result.first->first\<close> and
  \<^verbatim>\<open>result.second\<close>.
\<close>

fun map_find :: "'v cmap \<Rightarrow> string \<Rightarrow> (string \<times> 'v) option" where
  "map_find [] k = None"
| "map_find ((k', v') # m) k = (if k' = k then Some (k', v') else map_find m k)"

fun map_insert :: "string \<Rightarrow> 'v \<Rightarrow> 'v cmap \<Rightarrow> 'v cmap" where
  "map_insert k v [] = [(k, v)]"
| "map_insert k v ((k', v') # m) =
     (if k < k' then (k, v) # (k', v') # m else (k', v') # map_insert k v m)"

definition emplace :: "'v cmap \<Rightarrow> string \<Rightarrow> 'v \<Rightarrow> 'v cmap \<times> string \<times> bool" where
  "emplace m k v =
     (case map_find m k of
        Some (k', v') \<Rightarrow> (m, k', False)
      | None \<Rightarrow> (map_insert k v m, k, True))"

text \<open>
  \<^verbatim>\<open>decode_data\<close>, \<^verbatim>\<open>decode_list\<close> and \<^verbatim>\<open>decode_dict\<close>, with the \<^verbatim>\<open>while\<close> loops of the last
  two as functions of the container built so far and the unread input. A loop ends at
  the end of the input or before an \<^verbatim>\<open>'e'\<close>; the test \<^verbatim>\<open>begin == end\<close> that follows the
  loop is in \<open>decode_list\<close> and \<open>decode_dict\<close>, which start with
  \<^verbatim>\<open>assert(*begin == 'l')\<close> and \<^verbatim>\<open>assert(*begin == 'd')\<close>.
\<close>

function decode_data :: "bool \<Rightarrow> nat \<Rightarrow> iterator_category \<Rightarrow> string \<Rightarrow> error + any \<times> string"
  and decode_list :: "bool \<Rightarrow> nat \<Rightarrow> iterator_category \<Rightarrow> string \<Rightarrow> error + any list \<times> string"
  and decode_list_loop :: "bool \<Rightarrow> nat \<Rightarrow> iterator_category \<Rightarrow> any list \<Rightarrow> string \<Rightarrow> error + any list \<times> string"
  and decode_dict :: "bool \<Rightarrow> nat \<Rightarrow> iterator_category \<Rightarrow> string \<Rightarrow> error + any cmap \<times> string"
  and decode_dict_loop :: "bool \<Rightarrow> nat \<Rightarrow> iterator_category \<Rightarrow> any cmap \<Rightarrow> string \<Rightarrow> error + any cmap \<times> string"
where
  "decode_data view cap cat inp =
     (case inp of
        [] \<Rightarrow> Inr (Empty, [])
      | c # _ \<Rightarrow>
          if c = CHR ''i'' then
            (case decode_int view inp of
               Inl e \<Rightarrow> Inl e
             | Inr (n, b) \<Rightarrow> Inr (Integer n, b))
          else if c = CHR ''l'' then
            (case decode_list view cap cat inp of
               Inl e \<Rightarrow> Inl e
             | Inr (xs, b) \<Rightarrow> Inr (List xs, b))
          else if c = CHR ''d'' then
            (case decode_dict view cap cat inp of
               Inl e \<Rightarrow> Inl e
             | Inr (m, b) \<Rightarrow> Inr (if view then DictView m else Dict m, b))
          else if isdigit c then
            (case decode_str view cap cat inp of
               Inl e \<Rightarrow> Inl e
             | Inr (s, b) \<Rightarrow> Inr (if view then StringView s else String s, b))
          else Inl unexpected_type)"
| "decode_list view cap cat inp =
     (case inp of
        [] \<Rightarrow> Inl out_of_bounds
      | c0 # b0 \<Rightarrow>
          if c0 \<noteq> CHR ''l'' then Inl assertion_failed
          else
            (case decode_list_loop view cap cat [] b0 of
               Inl e \<Rightarrow> Inl e
             | Inr (val, b) \<Rightarrow>
                 (case b of
                    [] \<Rightarrow> Inl unexpected_end_of_string
                  | _ # b' \<Rightarrow> Inr (val, b'))))"
| "decode_list_loop view cap cat val inp =
     (case inp of
        [] \<Rightarrow> Inr (val, [])
      | c # _ \<Rightarrow>
          if c = CHR ''e'' then Inr (val, inp)
          else
            (case decode_data view cap cat inp of
               Inl e \<Rightarrow> Inl e
             | Inr (x, b) \<Rightarrow> decode_list_loop view cap cat (val @ [x]) b))"
| "decode_dict view cap cat inp =
     (case inp of
        [] \<Rightarrow> Inl out_of_bounds
      | c0 # b0 \<Rightarrow>
          if c0 \<noteq> CHR ''d'' then Inl assertion_failed
          else
            (case decode_dict_loop view cap cat [] b0 of
               Inl e \<Rightarrow> Inl e
             | Inr (val, b) \<Rightarrow>
                 (case b of
                    [] \<Rightarrow> Inl unexpected_end_of_string
                  | _ # b' \<Rightarrow> Inr (val, b'))))"
| "decode_dict_loop view cap cat val inp =
     (case inp of
        [] \<Rightarrow> Inr (val, [])
      | c # _ \<Rightarrow>
          if c = CHR ''e'' then Inr (val, inp)
          else if \<not> isdigit c then Inl expected_string_token
          else
            (case decode_str view cap cat inp of
               Inl e \<Rightarrow> Inl e
             | Inr (k, b1) \<Rightarrow>
                 (case decode_data view cap cat b1 of
                    Inl e \<Rightarrow> Inl e
                  | Inr (v, b2) \<Rightarrow>
                      (case emplace val k v of
                         (val', k', inserted) \<Rightarrow>
                           if \<not> inserted then Inl (duplicated_key k')
                           else decode_dict_loop view cap cat val' b2))))"
  by pat_completeness auto

text \<open>
  Termination: a successful call returns less input than it was given (no more, for a
  loop and for \<open>decode_data\<close> at the end of the input). This is shown on the domain of the
  functions first, and gives the measure.
\<close>

lemma int_digits_length: "int_digits val inp = (v, r) \<Longrightarrow> length r \<le> length inp"
  by (induction inp arbitrary: val) (auto split: if_splits intro: le_SucI)

lemma len_digits_length: "len_digits val inp = (v, r) \<Longrightarrow> length r \<le> length inp"
  by (induction inp arbitrary: val) (auto split: if_splits intro: le_SucI)

lemma decode_int_real_length: "decode_int_real inp = Inr (n, r) \<Longrightarrow> length r < length inp"
  by (auto simp: decode_int_real_def Let_def split: list.splits prod.splits if_splits
           dest: int_digits_length)

lemma str_reader_loop_length:
  "str_reader_loop i len val inp = Inr (s, r) \<Longrightarrow> length r \<le> length inp"
proof (induction i len val inp rule: str_reader_loop.induct)
  case (1 i len val inp)
  then show ?case
    by (subst (asm) (2) str_reader_loop.simps) (fastforce split: if_splits list.splits)
qed

lemma str_reader_length: "str_reader view cap cat inp len = Inr (s, r) \<Longrightarrow> length r \<le> length inp"
  by (auto simp: str_reader_def str_reader_view_def str_reader_forward_def str_reader_input_def
           split: if_splits iterator_category.splits dest: str_reader_loop_length)

lemma decode_str_length: "decode_str view cap cat inp = Inr (s, r) \<Longrightarrow> length r < length inp"
  by (auto simp: decode_str_def split: list.splits prod.splits if_splits
           dest!: len_digits_length str_reader_length)

lemma decode_length_dom:
  "decode_data_decode_list_decode_list_loop_decode_dict_decode_dict_loop_dom (Inl (Inl (view, cap, cat, inp)))
     \<Longrightarrow> \<forall>x r. decode_data view cap cat inp = Inr (x, r)
           \<longrightarrow> length r \<le> length inp \<and> (inp \<noteq> [] \<longrightarrow> length r < length inp)"
  "decode_data_decode_list_decode_list_loop_decode_dict_decode_dict_loop_dom (Inl (Inr (view1, cap1, cat1, inp1)))
     \<Longrightarrow> \<forall>x r. decode_list view1 cap1 cat1 inp1 = Inr (x, r) \<longrightarrow> length r < length inp1"
  "decode_data_decode_list_decode_list_loop_decode_dict_decode_dict_loop_dom (Inr (Inl (view2, cap2, cat2, val2, inp2)))
     \<Longrightarrow> \<forall>x r. decode_list_loop view2 cap2 cat2 val2 inp2 = Inr (x, r) \<longrightarrow> length r \<le> length inp2"
  "decode_data_decode_list_decode_list_loop_decode_dict_decode_dict_loop_dom (Inr (Inr (Inl (view3, cap3, cat3, inp3))))
     \<Longrightarrow> \<forall>x r. decode_dict view3 cap3 cat3 inp3 = Inr (x, r) \<longrightarrow> length r < length inp3"
  "decode_data_decode_list_decode_list_loop_decode_dict_decode_dict_loop_dom (Inr (Inr (Inr (view4, cap4, cat4, val4, inp4))))
     \<Longrightarrow> \<forall>x r. decode_dict_loop view4 cap4 cat4 val4 inp4 = Inr (x, r) \<longrightarrow> length r \<le> length inp4"
proof (induct rule: decode_data_decode_list_decode_list_loop_decode_dict_decode_dict_loop.pinduct)
  case (1 view cap cat inp)
  show ?case
  proof (intro allI impI)
    fix x r assume eq0: "decode_data view cap cat inp = Inr (x, r)"
    note eq = eq0 [unfolded decode_data.psimps [OF 1(1)]]
    show "length r \<le> length inp \<and> (inp \<noteq> [] \<longrightarrow> length r < length inp)"
    proof (cases inp)
      case Nil
      with eq show ?thesis by simp
    next
      case (Cons c cs)
      consider (i) "c = CHR ''i''" | (l) "c \<noteq> CHR ''i''" "c = CHR ''l''"
        | (d) "c \<noteq> CHR ''i''" "c \<noteq> CHR ''l''" "c = CHR ''d''"
        | (s) "c \<noteq> CHR ''i''" "c \<noteq> CHR ''l''" "c \<noteq> CHR ''d''" by blast
      then have "length r < length inp"
      proof cases
        case i
        with eq Cons show ?thesis
          by (auto simp: decode_int_def split: sum.splits
                   dest: decode_int_real_length)
      next
        case l
        from 1(2) [OF Cons l] eq Cons l show ?thesis
          by (auto split: sum.splits)
      next
        case d
        from 1(3) [OF Cons d] eq Cons d show ?thesis
          by (auto split: sum.splits)
      next
        case s
        with eq Cons show ?thesis
          by (auto split: sum.splits if_splits
                   dest: decode_str_length)
      qed
      then show ?thesis by simp
    qed
  qed
next
  case (2 view cap cat inp)
  show ?case
  proof (intro allI impI)
    fix x r assume eq0: "decode_list view cap cat inp = Inr (x, r)"
    note eq = eq0 [unfolded decode_list.psimps [OF 2(1)]]
    then obtain c b0 where inp: "inp = c # b0"
      by (cases inp) auto
    from eq inp have c: "\<not> c \<noteq> CHR ''l''" by (auto split: if_splits)
    from eq inp c obtain c' where "decode_list_loop view cap cat [] b0 = Inr (x, c' # r)"
      by (auto split: sum.splits list.splits)
    with 2(2) [OF inp c] have "length (c' # r) \<le> length b0" by blast
    with inp show "length r < length inp" by simp
  qed
next
  case (3 view cap cat val inp)
  show ?case
  proof (intro allI impI)
    fix x r assume eq0: "decode_list_loop view cap cat val inp = Inr (x, r)"
    note eq = eq0 [unfolded decode_list_loop.psimps [OF 3(1)]]
    show "length r \<le> length inp"
    proof (cases inp)
      case Nil
      with eq show ?thesis by simp
    next
      case (Cons c cs)
      show ?thesis
      proof (cases "c = CHR ''e''")
        case True
        with eq Cons show ?thesis by simp
      next
        case False
        from eq Cons False obtain y b where
          d: "decode_data view cap cat inp = Inr (y, b)" and
          l: "decode_list_loop view cap cat (val @ [y]) b = Inr (x, r)"
          by (auto split: sum.splits)
        from 3(2) [OF Cons False] d Cons have "length b < length inp" by blast
        moreover from 3(3) [OF Cons False d refl] l have "length r \<le> length b" by blast
        ultimately show ?thesis by simp
      qed
    qed
  qed
next
  case (4 view cap cat inp)
  show ?case
  proof (intro allI impI)
    fix x r assume eq0: "decode_dict view cap cat inp = Inr (x, r)"
    note eq = eq0 [unfolded decode_dict.psimps [OF 4(1)]]
    then obtain c b0 where inp: "inp = c # b0"
      by (cases inp) auto
    from eq inp have c: "\<not> c \<noteq> CHR ''d''" by (auto split: if_splits)
    from eq inp c obtain c' where "decode_dict_loop view cap cat [] b0 = Inr (x, c' # r)"
      by (auto split: sum.splits list.splits)
    with 4(2) [OF inp c] have "length (c' # r) \<le> length b0" by blast
    with inp show "length r < length inp" by simp
  qed
next
  case (5 view cap cat val inp)
  show ?case
  proof (intro allI impI)
    fix x r assume eq0: "decode_dict_loop view cap cat val inp = Inr (x, r)"
    note eq = eq0 [unfolded decode_dict_loop.psimps [OF 5(1)]]
    show "length r \<le> length inp"
    proof (cases inp)
      case Nil
      with eq show ?thesis by simp
    next
      case (Cons c cs)
      show ?thesis
      proof (cases "c = CHR ''e''")
        case True
        with eq Cons show ?thesis by simp
      next
        case False
        from eq Cons False have dg: "\<not> \<not> isdigit c"
          by (auto split: if_splits)
        from eq Cons False dg obtain k b1 where
          s: "decode_str view cap cat inp = Inr (k, b1)"
          by (auto split: sum.splits)
        from eq Cons False dg s obtain v b2 where
          d: "decode_data view cap cat b1 = Inr (v, b2)"
          by (auto split: sum.splits)
        obtain val' k' ins where e: "emplace val k v = (val', k', ins)"
          by (cases "emplace val k v") auto
        from eq Cons False dg s d e have ins: "\<not> \<not> ins" and
          l: "decode_dict_loop view cap cat val' b2 = Inr (x, r)"
          by (auto split: if_splits)
        from s have "length b1 < length inp" by (rule decode_str_length)
        moreover from 5(2) [OF Cons False dg s refl] d have "length b2 \<le> length b1" by blast
        moreover from 5(3) [OF Cons False dg s refl d refl e [symmetric] refl ins] l
        have "length r \<le> length b2" by blast
        ultimately show ?thesis by simp
      qed
    qed
  qed
qed

termination decode_data
  apply (relation "measure (\<lambda>x. case x of
          Inl (Inl (view, cap, cat, inp)) \<Rightarrow> 4 * length inp + 2
        | Inl (Inr (view, cap, cat, inp)) \<Rightarrow> 4 * length inp + 1
        | Inr (Inl (view, cap, cat, val, inp)) \<Rightarrow> 4 * length inp + 3
        | Inr (Inr (Inl (view, cap, cat, inp))) \<Rightarrow> 4 * length inp + 1
        | Inr (Inr (Inr (view, cap, cat, val, inp))) \<Rightarrow> 4 * length inp + 3)")
  apply simp_all
  subgoal for view cap cat inp c cs b x y
    using decode_length_dom(1) [of view cap cat "c # cs"] by auto
  subgoal for view cap cat inp c cs b x y
    using decode_str_length [of view cap cat "c # cs" x y] by auto
  subgoal for view cap cat val inp c cs b x y ba xa ya
    using decode_length_dom(1) [of view cap cat y] decode_str_length [of view cap cat "c # cs" x y]
    by auto
  done

declare decode_data.simps [simp del] decode_list.simps [simp del]
  decode_list_loop.simps [simp del] decode_dict.simps [simp del]
  decode_dict_loop.simps [simp del]

text \<open>
  The entry points on an iterator pair: \<^verbatim>\<open>decode(T &begin, T end)\<close> and
  \<^verbatim>\<open>decode_view(T &begin, T end)\<close>. The second component of the result is where
  \<^verbatim>\<open>begin\<close> stands afterwards. A view needs the bytes in memory and allocates no
  string, so \<open>decode_view\<close> has no iterator category and no limit (\<open>str_reader\<close> reads
  neither in view mode).
\<close>

definition decode :: "nat \<Rightarrow> iterator_category \<Rightarrow> string \<Rightarrow> error + any \<times> string" where
  "decode cap cat inp = decode_data False cap cat inp"

definition decode_view :: "string \<Rightarrow> error + any \<times> string" where
  "decode_view inp = decode_data True 0 forward_iterator inp"

section \<open>The encoder\<close>

text \<open>
  \<^verbatim>\<open>os << value\<close> for a \<^verbatim>\<open>long long\<close> and for a \<^verbatim>\<open>std::size_t\<close>, in the default format
  of a stream (decimal, no sign for a non-negative number, no padding, no grouping):
  the function of the standard library that the two scalar \<^verbatim>\<open>encode\<close> overloads call.
\<close>

function digits_of :: "nat \<Rightarrow> string" where
  "digits_of n =
     (if n < 10 then [char_of (48 + n)]
      else digits_of (n div 10) @ [char_of (48 + n mod 10)])"
  by pat_completeness auto
termination
  by (relation "measure (\<lambda>n. n)") auto

declare digits_of.simps [simp del]

definition show_integer :: "64 word \<Rightarrow> string" where
  "show_integer n =
     (if sint n < 0 then CHR ''-'' # digits_of (nat (- sint n)) else digits_of (nat (sint n)))"

text \<open>
  \<^verbatim>\<open>encode(std::ostream &os, integer value)\<close> and
  \<^verbatim>\<open>encode(std::ostream &os, const string_view &value)\<close>: the bytes written to \<^verbatim>\<open>os\<close>.
\<close>

definition encode_integer :: "64 word \<Rightarrow> string" where
  "encode_integer n = ''i'' @ show_integer n @ ''e''"

definition encode_string :: "string \<Rightarrow> string" where
  "encode_string s = digits_of (length s) @ '':'' @ s"

text \<open>
  \<^verbatim>\<open>encode(std::ostream &os, const any &value)\<close> dispatches on the type held, in the order
  \<^verbatim>\<open>integer\<close>, \<^verbatim>\<open>string\<close>, \<^verbatim>\<open>list\<close>, \<^verbatim>\<open>dict\<close>, and throws for everything else; the
  branches for \<^verbatim>\<open>string_view\<close> and \<^verbatim>\<open>dict_view\<close> are compiled only under
  \<^verbatim>\<open>BENCODE_HAS_STRING_VIEW\<close>, which the header never defines. A list is written by
  \<^verbatim>\<open>list_encoder\<close> (\<^verbatim>\<open>'l'\<close>, one \<^verbatim>\<open>add\<close> for each element, \<^verbatim>\<open>'e'\<close>) and a map by
  \<^verbatim>\<open>dict_encoder\<close> (\<^verbatim>\<open>'d'\<close>, one \<^verbatim>\<open>add\<close> for each entry in iteration order, \<^verbatim>\<open>'e'\<close>).
  An exception leaves the loop at once; the result is then the error, as for
  \<^verbatim>\<open>std::string encode(T &&t)\<close>, which returns nothing when \<^verbatim>\<open>encode(ss, t)\<close> throws.
\<close>

fun encode :: "any \<Rightarrow> error + string"
  and encode_list_items :: "any list \<Rightarrow> error + string"
  and encode_dict_items :: "any cmap \<Rightarrow> error + string"
where
  "encode (Integer n) = Inr (encode_integer n)"
| "encode (String s) = Inr (encode_string s)"
| "encode (List xs) =
     (case encode_list_items xs of
        Inl e \<Rightarrow> Inl e
      | Inr s \<Rightarrow> Inr (''l'' @ s @ ''e''))"
| "encode (Dict m) =
     (case encode_dict_items m of
        Inl e \<Rightarrow> Inl e
      | Inr s \<Rightarrow> Inr (''d'' @ s @ ''e''))"
| "encode Empty = Inl unexpected_type"
| "encode (StringView s) = Inl unexpected_type"
| "encode (DictView m) = Inl unexpected_type"
| "encode_list_items [] = Inr []"
| "encode_list_items (x # xs) =
     (case encode x of
        Inl e \<Rightarrow> Inl e
      | Inr s \<Rightarrow>
          (case encode_list_items xs of
             Inl e \<Rightarrow> Inl e
           | Inr t \<Rightarrow> Inr (s @ t)))"
| "encode_dict_items [] = Inr []"
| "encode_dict_items ((k, v) # m) =
     (case encode v of
        Inl e \<Rightarrow> Inl e
      | Inr s \<Rightarrow>
          (case encode_dict_items m of
             Inl e \<Rightarrow> Inl e
           | Inr t \<Rightarrow> Inr (encode_string k @ s @ t)))"

section \<open>Notions used in the statements\<close>

text \<open>
  The value that the digit loops compute from a run of digits: one step of the loop
  body, and the loop started at 0. Both are taken modulo \<open>2 ^ 64\<close>, as in the code.
  \<open>decimal\<close> is the number that the digits denote, with no bound.
\<close>

definition digit_step :: "64 word \<Rightarrow> char \<Rightarrow> 64 word" where
  "digit_step v c = v * 10 + of_char c - 48"

definition digits_value :: "string \<Rightarrow> 64 word" where
  "digits_value ds = foldl digit_step 0 ds"

definition decimal :: "string \<Rightarrow> nat" where
  "decimal ds = foldl (\<lambda>a c. a * 10 + (of_char c - 48)) 0 ds"

text \<open>
  The unread input does not start with a digit: a digit loop stops here. The unread
  input is exhausted or starts with \<^verbatim>\<open>'e'\<close>: the loop of a list or dict stops here.
\<close>

definition no_digit_ahead :: "string \<Rightarrow> bool" where
  "no_digit_ahead r = (case r of [] \<Rightarrow> True | c # _ \<Rightarrow> \<not> isdigit c)"

definition loop_stop :: "string \<Rightarrow> bool" where
  "loop_stop r = (case r of [] \<Rightarrow> True | c # _ \<Rightarrow> c = CHR ''e'')"

text \<open>
  The values that a program can hold and \<^verbatim>\<open>encode\<close> accepts: trees of the four kinds
  \<^verbatim>\<open>integer\<close>, \<^verbatim>\<open>string\<close>, \<^verbatim>\<open>list\<close> and \<^verbatim>\<open>dict\<close>, where every \<^verbatim>\<open>dict\<close> is a
  \<^verbatim>\<open>std::map\<close> (its entries in strictly ascending key order, so its keys are unique) and
  where every string and key has a size that a string can have: one that can be
  allocated, and below \<open>2 ^ 63\<close>, the bound of \<^verbatim>\<open>std::ptrdiff_t\<close>. An integer is a
  \<^verbatim>\<open>long long\<close>, a number and not a run of digits: minimal representation is no
  condition on a value.
\<close>

definition fits :: "nat \<Rightarrow> nat \<Rightarrow> bool" where
  "fits cap n = (n \<le> cap \<and> n < 2 ^ 63)"

fun well_formed :: "nat \<Rightarrow> any \<Rightarrow> bool" where
  "well_formed cap (Integer n) = True"
| "well_formed cap (String s) = fits cap (length s)"
| "well_formed cap (List xs) = (\<forall>x \<in> set xs. well_formed cap x)"
| "well_formed cap (Dict m) =
     (sorted_wrt (<) (map fst m) \<and> (\<forall>(k, v) \<in> set m. fits cap (length k) \<and> well_formed cap v))"
| "well_formed cap Empty = False"
| "well_formed cap (StringView s) = False"
| "well_formed cap (DictView m) = False"

text \<open>
  A value reads back: it has an encoding, which does not start with \<^verbatim>\<open>'e'\<close>, and the
  decoder in copy mode returns the value from the encoding followed by anything, with
  \<^verbatim>\<open>begin\<close> left right after the encoding.
\<close>

definition reads_back :: "nat \<Rightarrow> iterator_category \<Rightarrow> any \<Rightarrow> bool" where
  "reads_back cap cat v =
     (\<exists>s. encode v = Inr s \<and> s \<noteq> [] \<and> hd s \<noteq> CHR ''e'' \<and>
          (\<forall>t. decode_data False cap cat (s @ t) = Inr (v, t)))"

text \<open>A \<^verbatim>\<open>std::map\<close> built from nothing by \<^verbatim>\<open>emplace\<close> calls, in the order of the list.\<close>

definition build_dict :: "(string \<times> 'v) list \<Rightarrow> 'v cmap" where
  "build_dict kvs = foldl (\<lambda>m (k, v). fst (emplace m k v)) [] kvs"

section \<open>Digits\<close>

lemma int_digits_append:
  "list_all isdigit ds \<Longrightarrow> no_digit_ahead r \<Longrightarrow>
   int_digits v (ds @ r) = (foldl digit_step v ds, r)"
proof (induction ds arbitrary: v)
  case Nil
  then show ?case by (cases r) (simp_all add: no_digit_ahead_def)
next
  case (Cons d ds)
  then show ?case by (simp add: digit_step_def)
qed

lemma len_digits_eq: "len_digits v inp = int_digits v inp"
  by (induction inp arbitrary: v) simp_all

lemma len_digits_append:
  "list_all isdigit ds \<Longrightarrow> no_digit_ahead r \<Longrightarrow>
   len_digits v (ds @ r) = (foldl digit_step v ds, r)"
  by (simp only: len_digits_eq int_digits_append)

lemma int_digits_split:
  "int_digits v inp = (v', b) \<Longrightarrow>
   \<exists>ds. inp = ds @ b \<and> list_all isdigit ds \<and> no_digit_ahead b \<and> v' = foldl digit_step v ds"
proof (induction inp arbitrary: v)
  case Nil
  then show ?case by (simp add: no_digit_ahead_def)
next
  case (Cons c cs)
  show ?case
  proof (cases "isdigit c")
    case True
    with Cons.prems have "int_digits (v * 10 + of_char c - 48) cs = (v', b)" by simp
    from Cons.IH [OF this] obtain ds where
      "cs = ds @ b" "list_all isdigit ds" "no_digit_ahead b"
      "v' = foldl digit_step (v * 10 + of_char c - 48) ds" by blast
    with True show ?thesis
      by (intro exI [of _ "c # ds"]) (simp add: digit_step_def [of v c])
  next
    case False
    with Cons.prems show ?thesis
      by (intro exI [of _ "[]"]) (auto simp: no_digit_ahead_def)
  qed
qed

lemma len_digits_split:
  "len_digits v inp = (v', b) \<Longrightarrow>
   \<exists>ds. inp = ds @ b \<and> list_all isdigit ds \<and> no_digit_ahead b \<and> v' = foldl digit_step v ds"
  unfolding len_digits_eq by (rule int_digits_split)

lemma isdigit_not_minus: "isdigit c \<Longrightarrow> c \<noteq> CHR ''-''"
  by (auto simp: isdigit_def)

lemma isdigit_not_e: "isdigit c \<Longrightarrow> c \<noteq> CHR ''e''"
  by (auto simp: isdigit_def)

lemma isdigit_not_tag:
  "isdigit c \<Longrightarrow> c \<noteq> CHR ''i'' \<and> c \<noteq> CHR ''l'' \<and> c \<noteq> CHR ''d''"
  by (auto simp: isdigit_def)

lemma isdigit_char_of: "k < 10 \<Longrightarrow> isdigit (char_of (48 + k :: nat))"
  by (simp add: isdigit_def)

lemma of_char_digit: "k < 10 \<Longrightarrow> (of_char (char_of (48 + k :: nat)) :: 64 word) = 48 + of_nat k"
proof -
  assume k: "k < 10"
  have "(of_char (char_of (48 + k)) :: 64 word) = of_nat (of_char (char_of (48 + k)))"
    by (rule of_nat_of_char [symmetric])
  also have "(of_char (char_of (48 + k)) :: nat) = 48 + k" using k by simp
  finally show ?thesis by simp
qed

lemma digits_of_all_digits: "list_all isdigit (digits_of n)"
proof (induction n rule: digits_of.induct)
  case (1 n)
  show ?case
  proof (cases "n < 10")
    case True
    then show ?thesis by (simp add: digits_of.simps [of n] isdigit_char_of)
  next
    case False
    with 1 show ?thesis by (simp add: digits_of.simps [of n] isdigit_char_of)
  qed
qed

lemma digits_of_nonempty: "digits_of n \<noteq> []"
  by (simp add: digits_of.simps [of n])

lemma hd_digits_of: "isdigit (hd (digits_of n))"
  using digits_of_all_digits [of n] digits_of_nonempty [of n]
  by (cases "digits_of n") simp_all

lemma foldl_digit_step_digits_of: "foldl digit_step 0 (digits_of n) = of_nat n"
proof (induction n rule: digits_of.induct)
  case (1 n)
  show ?case
  proof (cases "n < 10")
    case True
    then show ?thesis by (simp add: digits_of.simps [of n] digit_step_def of_char_digit)
  next
    case False
    have "(of_nat n :: 64 word) = of_nat (n div 10 * 10 + n mod 10)" by simp
    also have "\<dots> = of_nat (n div 10) * 10 + of_nat (n mod 10)" by (simp only: of_nat_add of_nat_mult of_nat_numeral)
    finally have n: "(of_nat n :: 64 word) = of_nat (n div 10) * 10 + of_nat (n mod 10)" .
    from False 1 show ?thesis
      by (simp add: digits_of.simps [of n] digit_step_def of_char_digit n)
  qed
qed

lemma digits_value_digits_of: "digits_value (digits_of n) = of_nat n"
  by (simp add: digits_value_def foldl_digit_step_digits_of)

lemma decimal_snoc: "decimal (ds @ [c]) = decimal ds * 10 + (of_char c - 48)"
  by (simp add: decimal_def)

lemma decimal_digits_of: "decimal (digits_of n) = n"
proof (induction n rule: digits_of.induct)
  case (1 n)
  show ?case
  proof (cases "n < 10")
    case True
    then show ?thesis by (simp add: digits_of.simps [of n] decimal_def)
  next
    case False
    then have "decimal (digits_of n) = decimal (digits_of (n div 10)) * 10 + n mod 10"
      by (simp add: digits_of.simps [of n] decimal_snoc)
    with 1 False show ?thesis by simp
  qed
qed

lemma digits_of_no_leading_zero: "hd (digits_of n) = CHR ''0'' \<Longrightarrow> digits_of n = ''0''"
proof (induction n rule: digits_of.induct)
  case (1 n)
  show ?case
  proof (cases "n < 10")
    case True
    with 1(2) have "char_of (48 + n) = CHR ''0''"
      by (simp add: digits_of.simps [of n])
    then have "(of_char (char_of (48 + n) :: char) :: nat) = of_char (CHR ''0'')"
      by (rule arg_cong)
    with True have "n = 0" by simp
    moreover have "digits_of 0 = ''0''" by code_simp
    ultimately show ?thesis by simp
  next
    case False
    with 1(2) have "hd (digits_of (n div 10)) = CHR ''0''"
      by (simp add: digits_of.simps [of n] digits_of_nonempty)
    with 1(1) False have "digits_of (n div 10) = ''0''" by simp
    then have "decimal (digits_of (n div 10)) = decimal ''0''" by simp
    then have "n div 10 = 0" by (simp add: decimal_digits_of) (simp add: decimal_def)
    with False show ?thesis by simp
  qed
qed

lemma digits_of_zero_iff: "digits_of n = ''0'' \<Longrightarrow> n = 0"
proof -
  assume "digits_of n = ''0''"
  then have "decimal (digits_of n) = decimal ''0''" by simp
  then show ?thesis by (simp add: decimal_digits_of) (simp add: decimal_def)
qed

lemma digit_step_of_nat:
  "isdigit c \<Longrightarrow> digit_step (of_nat a) c = of_nat (a * 10 + (of_char c - 48))"
proof -
  assume "isdigit c"
  then have g: "48 \<le> (of_char c :: nat)" by (simp add: isdigit_def)
  have "(of_char c :: 64 word) = of_nat (of_char c)" by (rule of_nat_of_char [symmetric])
  also have "\<dots> = of_nat ((of_char c - 48) + 48)" using g by simp
  also have "\<dots> = of_nat (of_char c - 48) + 48" by (simp only: of_nat_add of_nat_numeral)
  finally have "(of_char c :: 64 word) - 48 = of_nat (of_char c - 48)" by simp
  then show ?thesis by (simp add: digit_step_def)
qed

lemma foldl_digit_step_of_nat:
  "list_all isdigit ds \<Longrightarrow>
   foldl digit_step (of_nat a) ds = of_nat (foldl (\<lambda>a c. a * 10 + (of_char c - 48)) a ds)"
proof (induction ds arbitrary: a)
  case Nil
  show ?case by simp
next
  case (Cons c ds)
  then have "isdigit c" "list_all isdigit ds" by simp_all
  with Cons.IH [of "a * 10 + (of_char c - 48)"] show ?case
    by (simp add: digit_step_of_nat)
qed

lemma digits_value_decimal: "list_all isdigit ds \<Longrightarrow> digits_value ds = of_nat (decimal ds)"
  using foldl_digit_step_of_nat [of ds 0] by (simp add: digits_value_def decimal_def)

section \<open>Integers\<close>

lemma decode_int_real_token:
  assumes ds: "list_all isdigit ds" and c: "\<not> isdigit c"
    and sg: "sg = [] \<or> sg = ''-''" and m: "sg = [] \<and> ds = [] \<longrightarrow> c \<noteq> CHR ''-''"
  shows "decode_int_real (CHR ''i'' # sg @ ds @ c # rest) =
     (if c = CHR ''e''
      then Inr (if sg = [] then digits_value ds else - digits_value ds, rest)
      else Inl expected_e)"
proof -
  have nd: "no_digit_ahead (c # rest)" using c by (simp add: no_digit_ahead_def)
  note dg = int_digits_append [OF ds nd, of 0]
  from sg show ?thesis
  proof
    assume s: "sg = []"
    show ?thesis
    proof (cases ds)
      case Nil
      with s m c show ?thesis
        by (simp add: decode_int_real_def digits_value_def)
    next
      case (Cons d ds')
      with ds have "d \<noteq> CHR ''-''" by (simp add: isdigit_not_minus)
      with s Cons dg show ?thesis
        by (simp add: decode_int_real_def digits_value_def)
    qed
  next
    assume s: "sg = ''-''"
    with dg show ?thesis
      by (simp add: decode_int_real_def digits_value_def)
  qed
qed

lemma sint_neg_word: "sint (n :: 64 word) < 0 \<Longrightarrow> - (of_nat (nat (- sint n)) :: 64 word) = n"
  by simp

lemma sint_pos_word: "\<not> sint (n :: 64 word) < 0 \<Longrightarrow> (of_nat (nat (sint n)) :: 64 word) = n"
  by simp

lemma decode_int_real_show_integer:
  "decode_int_real (CHR ''i'' # show_integer n @ CHR ''e'' # t) = Inr (n, t)"
proof (cases "sint n < 0")
  case True
  have "decode_int_real (CHR ''i'' # ''-'' @ digits_of (nat (- sint n)) @ CHR ''e'' # t) = Inr (n, t)"
    by (subst decode_int_real_token)
       (simp_all add: digits_of_all_digits isdigit_def digits_value_digits_of sint_neg_word [OF True])
  with True show ?thesis by (simp add: show_integer_def)
next
  case False
  have "decode_int_real (CHR ''i'' # [] @ digits_of (nat (sint n)) @ CHR ''e'' # t) = Inr (n, t)"
    by (subst decode_int_real_token)
       (simp_all add: digits_of_all_digits digits_of_nonempty isdigit_def digits_value_digits_of
          sint_pos_word [OF False])
  with False show ?thesis by (simp add: show_integer_def)
qed

lemma decode_int_real_prefix:
  assumes "decode_int_real inp = Inr (n, b)"
  shows "\<exists>p. inp = p @ b \<and> p \<noteq> [] \<and> hd p = hd inp \<and>
           (\<forall>t. decode_int_real (p @ t) = Inr (n, t))"
proof -
  from assms obtain c1 b1' where inp: "inp = CHR ''i'' # c1 # b1'"
    by (auto simp: decode_int_real_def split: list.splits if_splits)
  define sg where "sg = (if c1 = CHR ''-'' then ''-'' else [])"
  define b2 where "b2 = (if c1 = CHR ''-'' then b1' else c1 # b1')"
  have inp2: "inp = CHR ''i'' # sg @ b2" by (simp add: inp sg_def b2_def)
  obtain val b3 where id: "int_digits 0 b2 = (val, b3)" by (cases "int_digits 0 b2")
  from assms inp id have b3: "b3 = CHR ''e'' # b"
    and n: "n = (if sg = [] then val else - val)"
    by (auto simp: decode_int_real_def b2_def sg_def split: list.splits if_splits)
  from int_digits_split [OF id] obtain ds where
    ds: "b2 = ds @ b3" "list_all isdigit ds" "val = foldl digit_step 0 ds" by blast
  let ?p = "CHR ''i'' # sg @ ds @ ''e''"
  have "inp = ?p @ b" by (simp add: inp2 ds b3)
  moreover have "decode_int_real (?p @ t) = Inr (n, t)" for t
    using decode_int_real_token [of ds "CHR ''e''" sg t] ds n
    by (simp add: sg_def isdigit_def digits_value_def)
  ultimately show ?thesis using inp by (intro exI [of _ ?p]) simp
qed

text \<open>
  C1. An integer literal beyond the signed 64-bit range should fail with an overflow
  error. The digit loop has no test for it (the source says
  \<^verbatim>\<open>// TODO: handle overflow\<close>): the literal \<open>2 ^ 63\<close>, one more than the largest
  \<^verbatim>\<open>long long\<close>, is accepted and comes back as the wrapped value \<open>- 2 ^ 63\<close>.
\<close>

theorem decode_int_overflow_wraps:
  "decode cap cat ''i9223372036854775808e'' = Inr (Integer (- 9223372036854775808), []) \<and>
   sint (- 9223372036854775808 :: 64 word) = - 9223372036854775808"
  by (simp add: decode_def decode_data.simps decode_int_def decode_int_real_def isdigit_def)

text \<open>
  C2, as stated, fails: of the malformed integer tokens it lists, the decoder accepts
  \<^verbatim>\<open>"ie"\<close> and \<^verbatim>\<open>"i-e"\<close> (no digits) as 0, \<^verbatim>\<open>"i03e"\<close> (a leading zero) as 3 and \<^verbatim>\<open>"i-0e"\<close>
  as 0.
\<close>

theorem malformed_int_accepted:
  "decode string_max_size forward_iterator ''ie'' = Inr (Integer 0, []) \<and>
   decode string_max_size forward_iterator ''i-e'' = Inr (Integer 0, []) \<and>
   decode string_max_size forward_iterator ''i03e'' = Inr (Integer 3, []) \<and>
   decode string_max_size forward_iterator ''i-0e'' = Inr (Integer 0, [])"
  by (simp add: decode_def decode_data.simps decode_int_def decode_int_real_def isdigit_def)

text \<open>
  C2, amended. An integer token is \<^verbatim>\<open>'i'\<close>, an optional \<^verbatim>\<open>'-'\<close>, a run of digits
  that may be empty, and one more byte \<open>c\<close> that is not a digit. Decoding fails, with
  the error \<^verbatim>\<open>expected 'e'\<close>, exactly when \<open>c\<close> is not \<^verbatim>\<open>'e'\<close> (as in \<^verbatim>\<open>"i e"\<close>). When
  \<open>c\<close> is \<^verbatim>\<open>'e'\<close> the result is the value of the digits modulo \<open>2 ^ 64\<close>, negated after
  \<^verbatim>\<open>'-'\<close>, whatever the digits are: none, a leading zero, or \<^verbatim>\<open>"-0"\<close>.
\<close>

theorem decode_int_token:
  assumes "list_all isdigit ds" and "\<not> isdigit c"
    and "sg = [] \<or> sg = ''-''" and "sg = [] \<and> ds = [] \<longrightarrow> c \<noteq> CHR ''-''"
  shows "decode cap cat (CHR ''i'' # sg @ ds @ c # rest) =
     (if c = CHR ''e''
      then Inr (Integer (if sg = [] then digits_value ds else - digits_value ds), rest)
      else Inl expected_e)"
  using decode_int_real_token [OF assms, of rest]
  by (simp add: decode_def decode_data.simps decode_int_def)

theorem decode_int_token_witness:
  "decode string_max_size forward_iterator ''i e'' = Inl expected_e \<and>
   decode string_max_size forward_iterator ''i03e'' = Inr (Integer 3, []) \<and>
   decode string_max_size forward_iterator ''i-0e'' = Inr (Integer 0, []) \<and>
   decode string_max_size forward_iterator ''ie'' = Inr (Integer 0, []) \<and>
   decode string_max_size forward_iterator ''i-e'' = Inr (Integer 0, [])"
  using decode_int_token [of "[]" "CHR '' ''" "[]" string_max_size forward_iterator "''e''"]
    decode_int_token [of "''03''" "CHR ''e''" "[]" string_max_size forward_iterator "[]"]
    decode_int_token [of "''0''" "CHR ''e''" "''-''" string_max_size forward_iterator "[]"]
    decode_int_token [of "[]" "CHR ''e''" "[]" string_max_size forward_iterator "[]"]
    decode_int_token [of "[]" "CHR ''e''" "''-''" string_max_size forward_iterator "[]"]
  by (simp add: isdigit_def digits_value_def digit_step_def)

text \<open>
  C9. Decoding should never read past the end of the input, and the input \<^verbatim>\<open>"i"\<close>
  should signal the end of the input. \<^verbatim>\<open>decode_int_real\<close> tests \<^verbatim>\<open>*begin == '-'\<close>
  right after \<^verbatim>\<open>++begin\<close>, so on \<^verbatim>\<open>"i"\<close> it reads the end position, in both modes. On
  \<^verbatim>\<open>"i-"\<close> the digit loop tests \<^verbatim>\<open>begin != end\<close> first and the end of the input is
  signalled.
\<close>

theorem decode_i_reads_end:
  "decode cap cat ''i'' = Inl out_of_bounds \<and> decode_view ''i'' = Inl out_of_bounds \<and>
   decode cap cat ''i-'' = Inl unexpected_end_of_string"
  by (simp add: decode_def decode_view_def decode_data.simps decode_int_def decode_int_real_def)

section \<open>Strings\<close>

text \<open>
  What the three string readers do, case by case. They differ in the order of the
  tests: the forward reader and the view compare the length with the input first,
  the input reader allocates first.
\<close>

lemma str_reader_loop_fill:
  "length val = len \<Longrightarrow> i + length s = len \<Longrightarrow>
   str_reader_loop i len val (s @ t) = Inr (take i val @ s, t)"
proof (induction s arbitrary: i val)
  case Nil
  then show ?case by (subst str_reader_loop.simps) simp
next
  case (Cons c s)
  from Cons.prems have i: "i < len" by simp
  have "str_reader_loop (Suc i) len (val[i := c]) (s @ t) = Inr (take (Suc i) (val[i := c]) @ s, t)"
    using Cons.prems by (intro Cons.IH) simp_all
  moreover have "take (Suc i) (val[i := c]) = take i val @ [c]"
    using i Cons.prems by (simp add: take_Suc_conv_app_nth)
  ultimately show ?case using i by (simp add: str_reader_loop.simps [of i])
qed

lemma str_reader_loop_short:
  "length inp < len - i \<Longrightarrow> str_reader_loop i len val inp = Inl unexpected_end_of_string"
proof (induction inp arbitrary: i val)
  case Nil
  then show ?case by (simp add: str_reader_loop.simps [of i])
next
  case (Cons c inp)
  then show ?case by (simp add: str_reader_loop.simps [of i])
qed

lemma sint_nonneg_unat: "\<not> sint (len :: 64 word) < 0 \<Longrightarrow> sint len = int (unat len)"
proof -
  assume "\<not> sint len < 0"
  moreover have "sint len < 2 ^ 63" using sint_lt [of len] by simp
  ultimately have "take_bit 64 (sint len) = sint len"
    by (intro take_bit_int_eq_self) simp_all
  then have "uint len = sint len" using uint_sint [of len] by simp
  then show ?thesis by simp
qed

lemma sint_of_nat_small: "n < 2 ^ 63 \<Longrightarrow> sint (of_nat n :: 64 word) = int n"
proof -
  assume n: "n < 2 ^ 63"
  then have "int n < 2 ^ 63" by (metis of_nat_less_iff of_nat_numeral of_nat_power)
  then have "signed_take_bit 63 (int n) = int n"
    by (intro signed_take_bit_int_eq_self) simp_all
  then show ?thesis by (simp add: signed_of_nat)
qed

lemma unat_of_nat_small: "n < 2 ^ 63 \<Longrightarrow> unat (of_nat n :: 64 word) = n"
  by (simp add: unat_of_nat)

lemma str_reader_input_eq:
  "str_reader_input cap inp len =
     (if sint len < 0 \<or> cap < unat len then Inl length_error
      else if length inp < unat len then Inl unexpected_end_of_string
      else Inr (take (unat len) inp, drop (unat len) inp))"
proof (cases "sint len < 0 \<or> cap < unat len")
  case True
  then show ?thesis by (simp add: str_reader_input_def string_alloc_fails_def)
next
  case False
  show ?thesis
  proof (cases "length inp < unat len")
    case True
    with False show ?thesis
      by (simp add: str_reader_input_def string_alloc_fails_def str_reader_loop_short)
  next
    case short: False
    have "str_reader_loop 0 (unat len) (replicate (unat len) (CHR 0x00))
            (take (unat len) inp @ drop (unat len) inp)
          = Inr (take 0 (replicate (unat len) (CHR 0x00)) @ take (unat len) inp, drop (unat len) inp)"
      using short by (intro str_reader_loop_fill) simp_all
    with False short show ?thesis by (simp add: str_reader_input_def string_alloc_fails_def)
  qed
qed

lemma str_reader_forward_eq:
  "str_reader_forward cap inp len =
     (if sint len < 0 then Inl length_error
      else if length inp < unat len then Inl unexpected_end_of_string
      else if cap < unat len then Inl length_error
      else Inr (take (unat len) inp, drop (unat len) inp))"
proof (cases "sint len < 0")
  case True
  then have "\<not> int (length inp) < sint len" by linarith
  with True show ?thesis by (simp add: str_reader_forward_def string_alloc_fails_def)
next
  case False
  then have "sint len = int (unat len)" by (rule sint_nonneg_unat)
  then have "(int (length inp) < sint len) = (length inp < unat len)"
    by (simp only: of_nat_less_iff)
  with False show ?thesis by (simp add: str_reader_forward_def string_alloc_fails_def)
qed

lemma str_reader_view_eq:
  "str_reader_view inp len =
     (if sint len < 0 then Inl out_of_bounds
      else if length inp < unat len then Inl unexpected_end_of_string
      else Inr (take (unat len) inp, drop (unat len) inp))"
proof (cases "sint len < 0")
  case True
  then have "\<not> int (length inp) < sint len" by linarith
  with True show ?thesis by (simp add: str_reader_view_def)
next
  case False
  then have "sint len = int (unat len)" by (rule sint_nonneg_unat)
  then have "(int (length inp) < sint len) = (length inp < unat len)"
    by (simp only: of_nat_less_iff)
  with False show ?thesis by (simp add: str_reader_view_def)
qed

lemma str_reader_cases:
  "str_reader view cap cat inp len =
     (if view then
        (if sint len < 0 then Inl out_of_bounds
         else if length inp < unat len then Inl unexpected_end_of_string
         else Inr (take (unat len) inp, drop (unat len) inp))
      else case cat of
        forward_iterator \<Rightarrow>
          (if sint len < 0 then Inl length_error
           else if length inp < unat len then Inl unexpected_end_of_string
           else if cap < unat len then Inl length_error
           else Inr (take (unat len) inp, drop (unat len) inp))
      | input_iterator \<Rightarrow>
          (if sint len < 0 \<or> cap < unat len then Inl length_error
           else if length inp < unat len then Inl unexpected_end_of_string
           else Inr (take (unat len) inp, drop (unat len) inp)))"
  by (simp only: str_reader_def str_reader_view_eq str_reader_forward_eq str_reader_input_eq)

text \<open>
  A reader succeeds exactly when the length is not negative, the input holds that
  many bytes and, in copy mode, the string can be allocated; the string is then the
  next \<open>len\<close> bytes.
\<close>

lemma str_reader_Inr:
  assumes "str_reader view cap cat inp len = Inr (s, b)"
  shows "\<not> sint len < 0 \<and> \<not> length inp < unat len \<and> (view \<or> \<not> cap < unat len) \<and>
         s = take (unat len) inp \<and> b = drop (unat len) inp"
  using assms
  by (cases view; cases cat) (auto simp: str_reader_cases split: if_splits)

lemma str_reader_ok:
  assumes "\<not> sint len < 0" and "\<not> length inp < unat len" and "view \<or> \<not> cap < unat len"
  shows "str_reader view cap cat inp len = Inr (take (unat len) inp, drop (unat len) inp)"
  using assms by (cases view; cases cat) (auto simp: str_reader_cases)

lemma str_reader_short:
  assumes "\<not> sint len < 0" and "length inp < unat len"
    and "view \<or> cat = forward_iterator \<or> \<not> cap < unat len"
  shows "str_reader view cap cat inp len = Inl unexpected_end_of_string"
  using assms by (cases view; cases cat) (auto simp: str_reader_cases)

lemma encode_string_hd: "encode_string s = hd (digits_of (length s)) # tl (encode_string s)"
  using digits_of_nonempty [of "length s"]
  by (cases "digits_of (length s)") (simp_all add: encode_string_def)

text \<open>
  \<^verbatim>\<open>decode_str\<close> on a non-empty run of digits followed by something that is not a
  digit: the length is the value of the run, and the next byte has to be \<^verbatim>\<open>':'\<close>.
\<close>

lemma decode_str_run:
  assumes "ds \<noteq> []" and "list_all isdigit ds" and "no_digit_ahead r"
  shows "decode_str view cap cat (ds @ r) =
     (case r of
        [] \<Rightarrow> Inl unexpected_end_of_string
      | c # b2 \<Rightarrow>
          if c \<noteq> CHR '':'' then Inl expected_colon
          else str_reader view cap cat b2 (digits_value ds))"
proof -
  from assms(1,2) obtain d ds' where d: "ds = d # ds'" "isdigit d" by (cases ds) auto
  have ld: "len_digits 0 (d # ds' @ r) = (digits_value ds, r)"
    using len_digits_append [OF assms(2,3), of 0] by (simp only: d digits_value_def append_Cons)
  have "decode_str view cap cat (d # ds' @ r) =
      (case len_digits 0 (d # ds' @ r) of
         (len, b1) \<Rightarrow>
           (case b1 of
              [] \<Rightarrow> Inl unexpected_end_of_string
            | c # b2 \<Rightarrow>
                if c \<noteq> CHR '':'' then Inl expected_colon
                else str_reader view cap cat b2 len))"
    using d(2) by (simp add: decode_str_def del: len_digits.simps)
  then show ?thesis by (simp only: ld d append_Cons prod.case)
qed

lemma decode_str_encode_string:
  assumes "fits cap (length s)"
  shows "decode_str False cap cat (encode_string s @ t) = Inr (s, t)"
proof -
  let ?n = "length s"
  from assms have n: "?n < 2 ^ 63" "?n \<le> cap" by (simp_all add: fits_def)
  have nd: "no_digit_ahead (CHR '':'' # s @ t)" by (simp add: no_digit_ahead_def isdigit_def)
  have "str_reader False cap cat (s @ t) (of_nat ?n) = Inr (s, t)"
    using str_reader_ok [of "of_nat ?n" "s @ t" False cap cat] n
    by (simp add: sint_of_nat_small unat_of_nat_small)
  with decode_str_run [OF digits_of_nonempty digits_of_all_digits nd, of False cap cat ?n]
  show ?thesis by (simp add: encode_string_def digits_value_digits_of)
qed

lemma decode_str_prefix:
  assumes "decode_str view cap cat inp = Inr (s, b)"
  shows "\<exists>p. inp = p @ b \<and> p \<noteq> [] \<and> hd p = hd inp \<and>
           (\<forall>t. decode_str view cap cat (p @ t) = Inr (s, t))"
proof -
  from assms obtain c0 cs where inp: "inp = c0 # cs" and c0: "isdigit c0"
    by (auto simp: decode_str_def split: list.splits if_splits)
  obtain len b1 where ld: "len_digits 0 inp = (len, b1)" by (cases "len_digits 0 inp")
  from assms [unfolded decode_str_def] inp c0 ld obtain b2 where b1: "b1 = CHR '':'' # b2"
    and sr: "str_reader view cap cat b2 len = Inr (s, b)"
    by (auto simp del: len_digits.simps split: list.splits if_splits)
  from len_digits_split [OF ld] obtain ds where
    ds: "inp = ds @ b1" "list_all isdigit ds" "len = foldl digit_step 0 ds" by blast
  from ds(1) b1 inp c0 have dsne: "ds \<noteq> []" by (auto simp: isdigit_def)
  from str_reader_Inr [OF sr] have nn: "\<not> sint len < 0" and ge: "\<not> length b2 < unat len"
    and al: "view \<or> \<not> cap < unat len"
    and s: "s = take (unat len) b2" and b: "b = drop (unat len) b2"
    by simp_all
  let ?p = "ds @ CHR '':'' # s"
  have i: "inp = ?p @ b" by (simp add: ds b1 s b)
  have h: "hd ?p = hd inp" using ds b1 by (cases ds) simp_all
  have "decode_str view cap cat (?p @ t) = Inr (s, t)" for t
  proof -
    have nd: "no_digit_ahead (CHR '':'' # s @ t)" by (simp add: no_digit_ahead_def isdigit_def)
    have ls: "length s = unat len" using ge s by simp
    have "str_reader view cap cat (s @ t) len = Inr (s, t)"
      using str_reader_ok [OF nn _ al, of "s @ t" cat] ls by simp
    with decode_str_run [OF dsne ds(2) nd, of view cap cat] ds(3)
    show ?thesis by (simp add: digits_value_def)
  qed
  with i h show ?thesis by (intro exI [of _ ?p]) simp
qed

text \<open>
  A string token with a declared length: a non-empty run of digits \<open>ds\<close>, \<^verbatim>\<open>':'\<close> and
  the bytes \<open>bs\<close> that remain. \<^verbatim>\<open>decode_data\<close> hands it to \<^verbatim>\<open>decode_str\<close>, which hands
  \<open>bs\<close> and the length, taken modulo \<open>2 ^ 64\<close>, to the reader.
\<close>

lemma decode_data_string_token:
  assumes "ds \<noteq> []" and "list_all isdigit ds"
  shows "decode_data view cap cat (ds @ CHR '':'' # bs) =
     (case str_reader view cap cat bs (of_nat (decimal ds)) of
        Inl e \<Rightarrow> Inl e
      | Inr (s, b) \<Rightarrow> Inr (if view then StringView s else String s, b))"
proof -
  from assms obtain c cs where c: "ds = c # cs" "isdigit c" by (cases ds) auto
  have nd: "no_digit_ahead (CHR '':'' # bs)" by (simp add: no_digit_ahead_def isdigit_def)
  have "decode_str view cap cat (ds @ CHR '':'' # bs) =
      str_reader view cap cat bs (of_nat (decimal ds))"
    using decode_str_run [OF assms nd, of view cap cat]
    by (simp add: digits_value_decimal [OF assms(2)])
  then have dstr: "decode_str view cap cat (c # cs @ CHR '':'' # bs) =
      str_reader view cap cat bs (of_nat (decimal ds))"
    by (simp add: c(1))
  show ?thesis
    using c(2) isdigit_not_tag [OF c(2)]
    by (subst decode_data.simps) (simp add: c(1) dstr)
qed

text \<open>
  Where the test of the declared length works: a length below \<open>2 ^ 63\<close> that
  exceeds the bytes that remain is the error \<^verbatim>\<open>unexpected end of string\<close> on a forward
  source and in view mode, and on an input-only source when a string of that length
  can be allocated.
\<close>

lemma decode_str_short_input:
  assumes "ds \<noteq> []" and "list_all isdigit ds" and "decimal ds < 2 ^ 63"
    and "length bs < decimal ds"
  shows "decode cap forward_iterator (ds @ CHR '':'' # bs) = Inl unexpected_end_of_string \<and>
         decode_view (ds @ CHR '':'' # bs) = Inl unexpected_end_of_string \<and>
         (decimal ds \<le> cap \<longrightarrow>
            decode cap input_iterator (ds @ CHR '':'' # bs) = Inl unexpected_end_of_string)"
  using assms(3,4)
  by (simp add: decode_def decode_view_def decode_data_string_token [OF assms(1,2)]
        str_reader_short sint_of_nat_small unat_of_nat_small)

text \<open>
  Where it does not. On an input-only source the string is allocated before the
  input is looked at, so a declared length beyond \<open>cap\<close> is the failure of the
  allocation, whatever remains of the input.
\<close>

lemma decode_str_alloc_first:
  assumes "ds \<noteq> []" and "list_all isdigit ds" and "decimal ds < 2 ^ 63"
    and "cap < decimal ds"
  shows "decode cap input_iterator (ds @ CHR '':'' # bs) = Inl length_error"
  using assms(3,4)
  by (simp add: decode_def decode_data_string_token [OF assms(1,2)]
        str_reader_cases sint_of_nat_small unat_of_nat_small)

text \<open>
  C6. A declared length that exceeds the bytes remaining should be the end-of-input
  error. The readers do test for it, but the test misses:
  \<^item> the length wraps in its \<^verbatim>\<open>std::size_t\<close>: the prefix \<^verbatim>\<open>18446744073709551616\<close>
    declares \<open>2 ^ 64\<close> bytes, none follows, and every reader returns the empty
    string;
  \<^item> the input reader allocates before it tests: with \<^verbatim>\<open>"9223372036854775807:ab"\<close>,
    and with \<^verbatim>\<open>"1000000000000000000:ab"\<close> where \<open>2 ^ 48\<close> bytes can be had, the
    allocation fails and the end of the input is never reported;
  \<^item> the test compares with the length cast to \<^verbatim>\<open>std::ptrdiff_t\<close>: the declared
    length \<open>2 ^ 63\<close> is negative there and passes, so the forward reader fails in the
    allocation and the view moves \<^verbatim>\<open>begin\<close> out of the input.
\<close>

theorem declared_length_check_misses:
  "decimal ''18446744073709551616'' = 2 ^ 64 \<and>
   decode cap cat ''18446744073709551616:'' = Inr (String [], []) \<and>
   decode_view ''18446744073709551616:'' = Inr (StringView [], []) \<and>
   decode string_max_size input_iterator ''9223372036854775807:ab'' = Inl length_error \<and>
   decode (2 ^ 48) input_iterator ''1000000000000000000:ab'' = Inl length_error \<and>
   decode cap forward_iterator ''9223372036854775808:ab'' = Inl length_error \<and>
   decode_view ''9223372036854775808:ab'' = Inl out_of_bounds"
proof (intro conjI)
  show d64: "decimal ''18446744073709551616'' = 2 ^ 64"
    by (simp add: decimal_def)
  have w: "(18446744073709551616 :: 64 word) = 0" by simp
  have z: "str_reader view cap' cat' [] 18446744073709551616 = Inr ([], [])" for view cap' cat'
    using str_reader_ok [of 0 "[]" view cap' cat'] by (simp add: w)
  show "decode cap cat ''18446744073709551616:'' = Inr (String [], [])"
    using decode_data_string_token [of "''18446744073709551616''" False cap cat "[]"]
    by (simp add: decode_def d64 z isdigit_def)
  show "decode_view ''18446744073709551616:'' = Inr (StringView [], [])"
    using decode_data_string_token [of "''18446744073709551616''" True 0 forward_iterator "[]"]
    by (simp add: decode_view_def d64 z isdigit_def)
  show "decode string_max_size input_iterator ''9223372036854775807:ab'' = Inl length_error"
    using decode_str_alloc_first [of "''9223372036854775807''" string_max_size "''ab''"]
    by (simp add: isdigit_def decimal_def string_max_size_def)
  show "decode (2 ^ 48) input_iterator ''1000000000000000000:ab'' = Inl length_error"
    using decode_str_alloc_first [of "''1000000000000000000''" "2 ^ 48" "''ab''"]
    by (simp add: isdigit_def decimal_def)
  have d63: "decimal ''9223372036854775808'' = 2 ^ 63"
    by (simp add: decimal_def)
  have s63: "sint (2 ^ 63 :: 64 word) < 0" by simp
  show "decode cap forward_iterator ''9223372036854775808:ab'' = Inl length_error"
    using decode_data_string_token [of "''9223372036854775808''" False cap forward_iterator "''ab''"]
    by (simp add: decode_def d63 s63 str_reader_cases isdigit_def)
  show "decode_view ''9223372036854775808:ab'' = Inl out_of_bounds"
    using decode_data_string_token [of "''9223372036854775808''" True 0 forward_iterator "''ab''"]
    by (simp add: decode_view_def d63 s63 str_reader_cases isdigit_def)
qed

section \<open>Dispatch\<close>

text \<open>
  C5. On the empty input the top-level decode returns the empty \<^verbatim>\<open>any\<close> and no
  error; a first byte that is none of \<^verbatim>\<open>'i'\<close>, \<^verbatim>\<open>'l'\<close>, \<^verbatim>\<open>'d'\<close> or a digit is the error
  \<^verbatim>\<open>unexpected type\<close>.
\<close>

theorem decode_empty_input:
  "decode cap cat [] = Inr (Empty, []) \<and>
   (c \<noteq> CHR ''i'' \<and> c \<noteq> CHR ''l'' \<and> c \<noteq> CHR ''d'' \<and> \<not> isdigit c
      \<longrightarrow> decode cap cat (c # cs) = Inl unexpected_type)"
  by (simp add: decode_def decode_data.simps)

theorem decode_empty_input_witness:
  "decode string_max_size input_iterator [] = Inr (Empty, []) \<and>
   decode string_max_size input_iterator ''xyz'' = Inl unexpected_type \<and>
   decode string_max_size forward_iterator ''e'' = Inl unexpected_type"
  using decode_empty_input [of string_max_size input_iterator "CHR ''x''" "''yz''"]
    decode_empty_input [of string_max_size forward_iterator "CHR ''e''" "[]"]
  by (simp add: isdigit_def)

section \<open>Maps\<close>

lemma map_find_None: "k \<notin> fst ` set m \<Longrightarrow> map_find m k = None"
  by (induction m) auto

lemma map_find_Some: "k \<in> fst ` set m \<Longrightarrow> \<exists>v. map_find m k = Some (k, v)"
  by (induction m) force+

lemma map_insert_last: "\<forall>k' \<in> fst ` set m. k' < k \<Longrightarrow> map_insert k v m = m @ [(k, v)]"
  by (induction m) auto

lemma map_insert_keys: "fst ` set (map_insert k v m) = insert k (fst ` set m)"
proof (induction m)
  case Nil
  show ?case by simp
next
  case (Cons a m)
  obtain k' v' where a: "a = (k', v')" by (cases a)
  with Cons show ?case by (cases "k < k'") (simp_all add: insert_commute)
qed

lemma emplace_last:
  "\<forall>k' \<in> fst ` set m. k' < k \<Longrightarrow> emplace m k v = (m @ [(k, v)], k, True)"
proof -
  assume a: "\<forall>k' \<in> fst ` set m. k' < k"
  then have "k \<notin> fst ` set m" by auto
  with a show ?thesis by (simp add: emplace_def map_find_None map_insert_last)
qed

lemma emplace_present:
  "k \<in> fst ` set m \<Longrightarrow> emplace m k v = (m, k, False)"
  using map_find_Some [of k m] by (auto simp: emplace_def)

lemma emplace_absent: "k \<notin> fst ` set m \<Longrightarrow> emplace m k v = (map_insert k v m, k, True)"
  by (simp add: emplace_def map_find_None)

lemma map_insert_sorted:
  "sorted_wrt (<) (map fst m) \<Longrightarrow> k \<notin> fst ` set m \<Longrightarrow>
   sorted_wrt (<) (map fst (map_insert k v m))"
proof (induction m)
  case Nil
  then show ?case by simp
next
  case (Cons a m)
  obtain k' v' where a: "a = (k', v')" by (cases a)
  show ?case
  proof (cases "k < k'")
    case True
    with Cons.prems a show ?thesis by auto
  next
    case False
    with Cons.prems a have "k' < k" by auto
    moreover from Cons a have "sorted_wrt (<) (map fst (map_insert k v m))" by auto
    ultimately show ?thesis
      using Cons.prems a False
      by (auto simp: map_insert_keys [of k v m, simplified image_iff Bex_def])
  qed
qed

lemma emplace_sorted:
  "sorted_wrt (<) (map fst m) \<Longrightarrow> sorted_wrt (<) (map fst (fst (emplace m k v)))"
  by (cases "k \<in> fst ` set m") (simp_all add: emplace_present emplace_absent map_insert_sorted)

lemma emplace_keys: "fst ` set (fst (emplace m k v)) = insert k (fst ` set m)"
  by (cases "k \<in> fst ` set m") (auto simp: emplace_present emplace_absent map_insert_keys)

lemma foldl_emplace:
  "sorted_wrt (<) (map fst m) \<Longrightarrow>
   sorted_wrt (<) (map fst (foldl (\<lambda>m (k, v). fst (emplace m k v)) m kvs)) \<and>
   fst ` set (foldl (\<lambda>m (k, v). fst (emplace m k v)) m kvs) = fst ` set m \<union> fst ` set kvs"
proof (induction kvs arbitrary: m)
  case Nil
  then show ?case by simp
next
  case (Cons kv kvs)
  obtain k v where kv: "kv = (k, v)" by (cases kv)
  from Cons.prems have "sorted_wrt (<) (map fst (fst (emplace m k v)))" by (rule emplace_sorted)
  from Cons.IH [OF this] kv show ?case by (simp add: emplace_keys)
qed

lemma build_dict_sorted:
  "sorted_wrt (<) (map fst (build_dict kvs)) \<and> fst ` set (build_dict kvs) = fst ` set kvs"
  using foldl_emplace [of "[]" kvs] by (simp add: build_dict_def)

section \<open>Decoding what was encoded\<close>

lemma decode_list_loop_stop: "loop_stop r \<Longrightarrow> decode_list_loop view cap cat val r = Inr (val, r)"
  by (cases r) (simp_all add: loop_stop_def decode_list_loop.simps [of _ _ _ _ "[]"]
      decode_list_loop.simps [of _ _ _ _ "CHR ''e'' # _"])

lemma decode_dict_loop_stop: "loop_stop r \<Longrightarrow> decode_dict_loop view cap cat val r = Inr (val, r)"
  by (cases r) (simp_all add: loop_stop_def decode_dict_loop.simps [of _ _ _ _ "[]"]
      decode_dict_loop.simps [of _ _ _ _ "CHR ''e'' # _"])

lemma list_items_read_back:
  assumes "\<forall>x \<in> set xs. reads_back cap cat x"
  shows "\<exists>s. encode_list_items xs = Inr s \<and>
      (\<forall>val r. loop_stop r \<longrightarrow> decode_list_loop False cap cat val (s @ r) = Inr (val @ xs, r))"
  using assms
proof (induction xs)
  case Nil
  show ?case by (simp add: decode_list_loop_stop)
next
  case (Cons x xs)
  from Cons.prems obtain sx where sx: "encode x = Inr sx" "sx \<noteq> []" "hd sx \<noteq> CHR ''e''"
    and dx: "\<And>t. decode_data False cap cat (sx @ t) = Inr (x, t)"
    by (auto simp: reads_back_def)
  from Cons obtain s where s: "encode_list_items xs = Inr s"
    and ds: "\<And>val r. loop_stop r \<Longrightarrow> decode_list_loop False cap cat val (s @ r) = Inr (val @ xs, r)"
    by auto
  obtain c cs where c: "sx = c # cs" "c \<noteq> CHR ''e''" using sx by (cases sx) auto
  have "decode_list_loop False cap cat val ((sx @ s) @ r) = Inr (val @ x # xs, r)"
    if "loop_stop r" for val r
  proof -
    have "decode_list_loop False cap cat val (sx @ s @ r)
          = decode_list_loop False cap cat (val @ [x]) (s @ r)"
      using dx [of "s @ r"] c
      by (subst decode_list_loop.simps) simp
    with that show ?thesis by (simp add: ds)
  qed
  with sx s show ?case by simp
qed

lemma dict_entry_step:
  assumes k: "fits cap (length k)" and rb: "reads_back cap cat v" and sv: "encode v = Inr sv"
  shows "decode_dict_loop False cap cat val (encode_string k @ sv @ r) =
     (case emplace val k v of
        (val', k', inserted) \<Rightarrow>
          if \<not> inserted then Inl (duplicated_key k') else decode_dict_loop False cap cat val' r)"
proof -
  from rb sv have dv: "decode_data False cap cat (sv @ r) = Inr (v, r)"
    by (auto simp: reads_back_def)
  have st: "decode_str False cap cat (encode_string k @ sv @ r) = Inr (k, sv @ r)"
    by (rule decode_str_encode_string [OF k])
  obtain c cs where c: "encode_string k = c # cs" "isdigit c"
    using encode_string_hd [of k] hd_digits_of [of "length k"] by metis
  show ?thesis
    using c st dv by (subst decode_dict_loop.simps) (simp add: isdigit_not_e)
qed

lemma dict_items_read_back:
  assumes "\<forall>(k, v) \<in> set m. fits cap (length k) \<and> reads_back cap cat v"
    and "sorted_wrt (<) (map fst (val @ m))"
  shows "\<exists>s. encode_dict_items m = Inr s \<and>
      (\<forall>r. loop_stop r \<longrightarrow> decode_dict_loop False cap cat val (s @ r) = Inr (val @ m, r))"
  using assms
proof (induction m arbitrary: val)
  case Nil
  show ?case by (simp add: decode_dict_loop_stop)
next
  case (Cons kv m)
  obtain k v where kv: "kv = (k, v)" by (cases kv)
  from Cons.prems(1) kv have k: "fits cap (length k)" and rb: "reads_back cap cat v" by auto
  from rb obtain sv where sv: "encode v = Inr sv" by (auto simp: reads_back_def)
  from Cons.prems(2) kv have less: "\<forall>k' \<in> fst ` set val. k' < k"
    by (auto simp: sorted_wrt_append)
  from Cons.prems(2) kv have "sorted_wrt (<) (map fst ((val @ [(k, v)]) @ m))" by simp
  with Cons.IH [of "val @ [(k, v)]"] Cons.prems(1) obtain s where
    s: "encode_dict_items m = Inr s" and
    ds: "\<And>r. loop_stop r \<Longrightarrow> decode_dict_loop False cap cat (val @ [(k, v)]) (s @ r)
            = Inr ((val @ [(k, v)]) @ m, r)"
    by auto
  have "decode_dict_loop False cap cat val ((encode_string k @ sv @ s) @ r)
        = Inr (val @ (k, v) # m, r)" if "loop_stop r" for r
    using dict_entry_step [OF k rb sv, of val "s @ r"] ds [OF that]
    by (simp add: emplace_last [OF less])
  with sv s kv show ?case by simp
qed

lemma read_back: "well_formed cap v \<Longrightarrow> reads_back cap cat v"
proof (induction v)
  case Empty
  then show ?case by simp
next
  case (Integer n)
  show ?case
    unfolding reads_back_def
    by (rule exI [of _ "encode_integer n"])
       (simp add: encode_integer_def decode_data.simps decode_int_def
          decode_int_real_show_integer)
next
  case (String s)
  then have len: "fits cap (length s)" by simp
  obtain c cs where c: "encode_string s = c # cs" "isdigit c"
    using encode_string_hd [of s] hd_digits_of [of "length s"] by metis
  have "decode_data False cap cat (encode_string s @ t) = Inr (String s, t)" for t
    using decode_str_encode_string [OF len, of cat t] c isdigit_not_tag [of c]
    by (subst decode_data.simps) simp
  with c show ?case
    unfolding reads_back_def
    by (intro exI [of _ "encode_string s"]) (simp add: isdigit_not_e)
next
  case (List xs)
  then have "\<forall>x \<in> set xs. reads_back cap cat x" by simp
  from list_items_read_back [OF this] obtain s where s: "encode_list_items xs = Inr s"
    and ds: "\<And>val r. loop_stop r \<Longrightarrow> decode_list_loop False cap cat val (s @ r) = Inr (val @ xs, r)"
    by blast
  have "decode_data False cap cat ((''l'' @ s @ ''e'') @ t) = Inr (List xs, t)" for t
    using ds [of "CHR ''e'' # t" "[]"]
    by (simp add: decode_data.simps decode_list.simps loop_stop_def)
  with s show ?case
    unfolding reads_back_def by (intro exI [of _ "''l'' @ s @ ''e''"]) simp
next
  case (Dict m)
  have "\<forall>(k, v) \<in> set m. fits cap (length k) \<and> reads_back cap cat v"
  proof (clarify, rule conjI)
    fix k v assume kv: "(k, v) \<in> set m"
    with Dict.prems show "fits cap (length k)" by auto
    from kv Dict.prems have "well_formed cap v" by auto
    with Dict.IH kv show "reads_back cap cat v" by force
  qed
  moreover from Dict.prems have "sorted_wrt (<) (map fst ([] @ m))" by simp
  ultimately obtain s where s: "encode_dict_items m = Inr s"
    and ds: "\<And>r. loop_stop r \<Longrightarrow> decode_dict_loop False cap cat [] (s @ r) = Inr ([] @ m, r)"
    using dict_items_read_back [of m cap cat "[]"] by blast
  have "decode_data False cap cat ((''d'' @ s @ ''e'') @ t) = Inr (Dict m, t)" for t
    using ds [of "CHR ''e'' # t"]
    by (simp add: decode_data.simps decode_dict.simps loop_stop_def)
  with s show ?case
    unfolding reads_back_def by (intro exI [of _ "''d'' @ s @ ''e''"]) simp
next
  case (StringView s)
  then show ?case by simp
next
  case (DictView m)
  then show ?case by simp
qed

lemma fits_string_max_size: "n < 2 ^ 62 - 1 \<Longrightarrow> fits string_max_size n"
  by (simp add: fits_def string_max_size_def)

lemma encode_example:
  "encode (Dict [(''cow'', String ''moo''), (''spam'', List [Integer 42, Integer (- 13)])])
     = Inr ''d3:cow3:moo4:spamli42ei-13eee''"
  by code_simp

text \<open>
  C4. Round trip: every well-formed value has an encoding, and decoding the encoding
  (in copy mode, from either kind of source) returns the value and consumes all of it.
\<close>

theorem decode_encode_roundtrip:
  "well_formed cap v \<Longrightarrow> \<exists>s. encode v = Inr s \<and> decode cap cat s = Inr (v, [])"
proof -
  assume "well_formed cap v"
  then have "reads_back cap cat v" by (rule read_back)
  then obtain s where "encode v = Inr s" "\<forall>t. decode_data False cap cat (s @ t) = Inr (v, t)"
    by (auto simp: reads_back_def)
  then have "encode v = Inr s \<and> decode cap cat (s @ []) = Inr (v, [])"
    unfolding decode_def by blast
  then show ?thesis by auto
qed

theorem decode_encode_roundtrip_witness:
  "well_formed string_max_size (Dict [(''cow'', String ''moo''), (''spam'', List [Integer 42, Integer (- 13)])]) \<and>
   encode (Dict [(''cow'', String ''moo''), (''spam'', List [Integer 42, Integer (- 13)])])
     = Inr ''d3:cow3:moo4:spamli42ei-13eee'' \<and>
   decode string_max_size input_iterator ''d3:cow3:moo4:spamli42ei-13eee''
     = Inr (Dict [(''cow'', String ''moo''), (''spam'', List [Integer 42, Integer (- 13)])], [])"
proof -
  let ?v = "Dict [(''cow'', String ''moo''), (''spam'', List [Integer 42, Integer (- 13)])]"
  have wf: "well_formed string_max_size ?v" by (simp add: fits_string_max_size)
  from decode_encode_roundtrip [OF wf, of input_iterator] obtain s where
    s: "encode ?v = Inr s" "decode string_max_size input_iterator s = Inr (?v, [])" by blast
  from s(1) [unfolded encode_example] have "''d3:cow3:moo4:spamli42ei-13eee'' = s"
    by (simp only: sum.inject)
  with s(2) wf encode_example show ?thesis by (simp only: simp_thms)
qed

lemma decode_encoded:
  assumes "well_formed cap v" and "encode v = Inr s"
  shows "decode cap cat (s @ t) = Inr (v, t)"
  using read_back [OF assms(1), of cat] assms(2)
  by (auto simp: reads_back_def decode_def)

section \<open>Lists\<close>

text \<open>
  A list is decoded in input order: \<^verbatim>\<open>'l'\<close>, the encodings of the elements of \<open>xs\<close>
  and \<^verbatim>\<open>'e'\<close> decode to \<open>List xs\<close>, and without the \<^verbatim>\<open>'e'\<close> the end of the input is
  the error \<^verbatim>\<open>unexpected end of string\<close>.
\<close>

lemma decode_list_elements:
  assumes "\<forall>x \<in> set xs. well_formed cap x" and "encode_list_items xs = Inr s"
  shows "decode cap cat (''l'' @ s @ ''e'' @ t) = Inr (List xs, t)"
    and "decode cap cat (''l'' @ s) = Inl unexpected_end_of_string"
proof -
  from assms(1) have "\<forall>x \<in> set xs. reads_back cap cat x" by (simp add: read_back)
  from list_items_read_back [OF this] assms(2)
  have ds: "\<And>val r. loop_stop r \<Longrightarrow> decode_list_loop False cap cat val (s @ r) = Inr (val @ xs, r)"
    by auto
  show "decode cap cat (''l'' @ s @ ''e'' @ t) = Inr (List xs, t)"
    using ds [of "CHR ''e'' # t" "[]"]
    by (simp add: decode_def decode_data.simps decode_list.simps loop_stop_def)
  show "decode cap cat (''l'' @ s) = Inl unexpected_end_of_string"
    using ds [of "[]" "[]"]
    by (simp add: decode_def decode_data.simps decode_list.simps loop_stop_def)
qed

lemma encode_examples:
  "encode_list_items [String ''spam'', String ''eggs''] = Inr ''4:spam4:eggs''"
  "encode (String ''spam'') = Inr ''4:spam''"
  "encode (Integer 42) = Inr ''i42e''"
  by code_simp+

text \<open>
  The three scenarios of the specification, on both kinds of source, wherever a
  string of four bytes can be allocated.
\<close>

lemma decode_scenarios:
  assumes "4 \<le> cap"
  shows "decode cap cat ''l4:spam4:eggse'' = Inr (List [String ''spam'', String ''eggs''], [])"
    and "decode cap cat ''4:spam'' = Inr (String ''spam'', [])"
    and "decode cap cat ''i42e'' = Inr (Integer 42, [])"
proof -
  from assms have wl: "\<forall>x \<in> set [String ''spam'', String ''eggs'']. well_formed cap x"
    and ws: "well_formed cap (String ''spam'')" and wi: "well_formed cap (Integer 42)"
    by (simp_all add: fits_def)
  show "decode cap cat ''l4:spam4:eggse'' = Inr (List [String ''spam'', String ''eggs''], [])"
    using decode_list_elements(1) [OF wl encode_examples(1), of cat "[]"] by simp
  show "decode cap cat ''4:spam'' = Inr (String ''spam'', [])"
    using decode_encoded [OF ws encode_examples(2), of cat "[]"] by simp
  show "decode cap cat ''i42e'' = Inr (Integer 42, [])"
    using decode_encoded [OF wi encode_examples(3), of cat "[]"] by simp
qed

text \<open>
  C8. A list should fail on premature exhaustion before the \<^verbatim>\<open>'e'\<close> terminator. Where
  the input ends right after the \<^verbatim>\<open>'i'\<close> of an element, as in \<^verbatim>\<open>"li"\<close> and
  \<^verbatim>\<open>"li1ei"\<close>, it does not fail: the element is read by \<^verbatim>\<open>decode_int_real\<close>, which
  tests \<^verbatim>\<open>*begin == '-'\<close> with no \<^verbatim>\<open>begin != end\<close> before it and reads the end
  position, in both modes and on both kinds of source.
\<close>

theorem decode_list_reads_end:
  "decode cap cat ''li'' = Inl out_of_bounds \<and>
   decode cap cat ''li1ei'' = Inl out_of_bounds \<and>
   decode_view ''li'' = Inl out_of_bounds"
  by (simp add: decode_def decode_view_def decode_data.simps decode_list.simps
        decode_list_loop.simps decode_int_def decode_int_real_def isdigit_def)

section \<open>Duplicate keys\<close>

lemma encode_dict_items_append:
  "encode_dict_items (a @ b) =
     (case encode_dict_items a of
        Inl e \<Rightarrow> Inl e
      | Inr s \<Rightarrow> (case encode_dict_items b of Inl e \<Rightarrow> Inl e | Inr t \<Rightarrow> Inr (s @ t)))"
  by (induction a) (auto split: sum.splits)

lemma dict_entries_distinct:
  assumes "\<forall>(k, v) \<in> set pre. fits cap (length k) \<and> reads_back cap cat v"
    and "distinct (map fst pre)" and "fst ` set pre \<inter> fst ` set val = {}"
  shows "\<exists>s val'. encode_dict_items pre = Inr s \<and>
      fst ` set val' = fst ` set val \<union> fst ` set pre \<and>
      (\<forall>r. decode_dict_loop False cap cat val (s @ r) = decode_dict_loop False cap cat val' r)"
  using assms
proof (induction pre arbitrary: val)
  case Nil
  show ?case by (intro exI [of _ "[]"] exI [of _ val]) simp
next
  case (Cons kv pre)
  obtain k v where kv: "kv = (k, v)" by (cases kv)
  from Cons.prems(1) kv have k: "fits cap (length k)" and rb: "reads_back cap cat v" by auto
  from rb obtain sv where sv: "encode v = Inr sv" by (auto simp: reads_back_def)
  from Cons.prems(3) kv have nk: "k \<notin> fst ` set val" by auto
  let ?val1 = "map_insert k v val"
  have "fst ` set pre \<inter> fst ` set ?val1 = {}"
    using Cons.prems(2,3) kv by (auto simp: map_insert_keys)
  with Cons.IH [of ?val1] Cons.prems(1,2) obtain s val' where
    s: "encode_dict_items pre = Inr s"
    and keys: "fst ` set val' = fst ` set ?val1 \<union> fst ` set pre"
    and ds: "\<And>r. decode_dict_loop False cap cat ?val1 (s @ r) = decode_dict_loop False cap cat val' r"
    by auto
  have "decode_dict_loop False cap cat val ((encode_string k @ sv @ s) @ r)
        = decode_dict_loop False cap cat val' r" for r
    using dict_entry_step [OF k rb sv, of val "s @ r"] ds [of r]
    by (simp add: emplace_absent [OF nk])
  moreover have "fst ` set val' = fst ` set val \<union> fst ` set (kv # pre)"
    using keys kv by (auto simp: map_insert_keys)
  ultimately show ?case using sv s kv
    by (intro exI [of _ "encode_string k @ sv @ s"] exI [of _ val']) simp
qed

text \<open>
  C3. A repeated key aborts the decoding of a dict with the error
  \<^verbatim>\<open>duplicated key in dict: \<close> followed by the key. The input is \<^verbatim>\<open>'d'\<close>, then entries
  \<open>pre\<close> with distinct keys in any order, then an entry whose key \<open>k\<close> is one of
  theirs; whatever follows is not read, and no dict is returned.
\<close>

theorem decode_duplicate_key:
  assumes "\<forall>(k', v') \<in> set pre. fits cap (length k') \<and> well_formed cap v'"
    and "distinct (map fst pre)" and "k \<in> fst ` set pre" and "well_formed cap v"
    and "encode_dict_items (pre @ [(k, v)]) = Inr s"
  shows "decode cap cat (''d'' @ s @ rest) = Inl (duplicated_key k)"
proof -
  from assms(1) have rbs: "\<forall>(k', v') \<in> set pre. fits cap (length k') \<and> reads_back cap cat v'"
    by (auto simp: read_back)
  from dict_entries_distinct [OF rbs assms(2), of "[]"] obtain s1 val' where
    s1: "encode_dict_items pre = Inr s1" and keys: "fst ` set val' = fst ` set pre"
    and ds: "\<And>r. decode_dict_loop False cap cat [] (s1 @ r) = decode_dict_loop False cap cat val' r"
    by auto
  from assms(1,3) have k: "fits cap (length k)" by auto
  from assms(4) have rb: "reads_back cap cat v" by (rule read_back)
  then obtain sv where sv: "encode v = Inr sv" by (auto simp: reads_back_def)
  from assms(5) s1 sv have s: "s = s1 @ encode_string k @ sv"
    by (simp add: encode_dict_items_append)
  from assms(3) keys have "k \<in> fst ` set val'" by simp
  then have "decode_dict_loop False cap cat val' (encode_string k @ sv @ rest) = Inl (duplicated_key k)"
    using dict_entry_step [OF k rb sv, of val' rest] by (simp add: emplace_present)
  with ds [of "encode_string k @ sv @ rest"] s
  show ?thesis
    by (simp add: decode_def decode_data.simps decode_dict.simps)
qed

theorem decode_duplicate_key_witness:
  "decode string_max_size forward_iterator ''d1:a1:x1:a1:ye'' = Inl (duplicated_key ''a'') \<and>
   decode string_max_size input_iterator ''d1:b1:x1:a1:y1:bi0e'' = Inl (duplicated_key ''b'')"
proof -
  have e1: "encode_dict_items ([(''a'', String ''x'')] @ [(''a'', String ''y'')]) = Inr ''1:a1:x1:a1:y''"
    by code_simp
  have e2: "encode_dict_items ([(''b'', String ''x''), (''a'', String ''y'')] @ [(''b'', Integer 0)])
      = Inr ''1:b1:x1:a1:y1:bi0e''"
    by code_simp
  from decode_duplicate_key [of "[(''a'', String ''x'')]" string_max_size "''a''" "String ''y''"
      "''1:a1:x1:a1:y''" forward_iterator "''e''"] e1
  have 1: "decode string_max_size forward_iterator ''d1:a1:x1:a1:ye'' = Inl (duplicated_key ''a'')"
    by (simp add: fits_string_max_size)
  from decode_duplicate_key [of "[(''b'', String ''x''), (''a'', String ''y'')]" string_max_size
      "''b''" "Integer 0" "''1:b1:x1:a1:y1:bi0e''" input_iterator "[]"] e2
  have 2: "decode string_max_size input_iterator ''d1:b1:x1:a1:y1:bi0e'' = Inl (duplicated_key ''b'')"
    by (simp add: fits_string_max_size)
  from 1 2 show ?thesis by simp
qed

section \<open>One value at a time\<close>

text \<open>
  Whenever a decoding function succeeds, what it returns as the new \<^verbatim>\<open>begin\<close> is a
  suffix of its input, and the bytes before that suffix alone decide the result: with
  any other bytes after them the same value comes back and \<^verbatim>\<open>begin\<close> stops at the same
  place.
\<close>

lemma decode_prefix_all:
  "\<forall>v b. decode_data view cap cat inp = Inr (v, b) \<longrightarrow> inp \<noteq> [] \<longrightarrow>
     (\<exists>p. inp = p @ b \<and> p \<noteq> [] \<and> (\<forall>t. decode_data view cap cat (p @ t) = Inr (v, t)))"
  "\<forall>xs b. decode_list view cap cat inp1 = Inr (xs, b) \<longrightarrow>
     (\<exists>p. inp1 = p @ b \<and> p \<noteq> [] \<and> (\<forall>t. decode_list view cap cat (p @ t) = Inr (xs, t)))"
  "\<forall>xs b. decode_list_loop view cap cat val2 inp2 = Inr (xs, b) \<longrightarrow> b \<noteq> [] \<longrightarrow>
     (\<exists>p b'. b = CHR ''e'' # b' \<and> inp2 = p @ b \<and>
        (\<forall>t. decode_list_loop view cap cat val2 (p @ CHR ''e'' # t) = Inr (xs, CHR ''e'' # t)))"
  "\<forall>m b. decode_dict view cap cat inp3 = Inr (m, b) \<longrightarrow>
     (\<exists>p. inp3 = p @ b \<and> p \<noteq> [] \<and> (\<forall>t. decode_dict view cap cat (p @ t) = Inr (m, t)))"
  "\<forall>m b. decode_dict_loop view cap cat val4 inp4 = Inr (m, b) \<longrightarrow> b \<noteq> [] \<longrightarrow>
     (\<exists>p b'. b = CHR ''e'' # b' \<and> inp4 = p @ b \<and>
        (\<forall>t. decode_dict_loop view cap cat val4 (p @ CHR ''e'' # t) = Inr (m, CHR ''e'' # t)))"
proof (induct view cap cat inp and view cap cat inp1 and view cap cat val2 inp2
         and view cap cat inp3 and view cap cat val4 inp4
       rule: decode_data_decode_list_decode_list_loop_decode_dict_decode_dict_loop.induct)
  case (1 view cap cat inp)
  show ?case
  proof (intro allI impI)
    fix v b assume eq0: "decode_data view cap cat inp = Inr (v, b)" and ne: "inp \<noteq> []"
    note eq = eq0 [unfolded decode_data.simps [of view cap cat inp]]
    from ne obtain c cs where inp: "inp = c # cs" by (cases inp) auto
    consider (i) "c = CHR ''i''" | (l) "c \<noteq> CHR ''i''" "c = CHR ''l''"
      | (d) "c \<noteq> CHR ''i''" "c \<noteq> CHR ''l''" "c = CHR ''d''"
      | (s) "c \<noteq> CHR ''i''" "c \<noteq> CHR ''l''" "c \<noteq> CHR ''d''" by blast
    then show "\<exists>p. inp = p @ b \<and> p \<noteq> [] \<and> (\<forall>t. decode_data view cap cat (p @ t) = Inr (v, t))"
    proof cases
      case i
      with eq inp obtain n where r: "decode_int_real inp = Inr (n, b)" and v: "v = Integer n"
        by (auto simp: decode_int_def split: sum.splits)
      from decode_int_real_prefix [OF r] obtain p where
        p: "inp = p @ b" "p \<noteq> []" "hd p = hd inp"
        and pt: "\<And>t. decode_int_real (p @ t) = Inr (n, t)" by blast
      from p inp i obtain q where q: "p = CHR ''i'' # q" by (cases p) auto
      have "decode_data view cap cat (p @ t) = Inr (v, t)" for t
        using pt [of t] q v by (simp add: decode_data.simps decode_int_def)
      with p show ?thesis by blast
    next
      case l
      with eq inp obtain xs where r: "decode_list view cap cat inp = Inr (xs, b)" and v: "v = List xs"
        by (auto split: sum.splits)
      from 1(1) [OF inp l] r obtain p where
        p: "inp = p @ b" "p \<noteq> []"
        and pt: "\<And>t. decode_list view cap cat (p @ t) = Inr (xs, t)" by blast
      from p inp l obtain q where q: "p = CHR ''l'' # q" by (cases p) auto
      have "decode_data view cap cat (p @ t) = Inr (v, t)" for t
        using pt [of t] q v by (simp add: decode_data.simps [of _ _ _ "CHR ''l'' # _"])
      with p show ?thesis by blast
    next
      case d
      with eq inp obtain m where r: "decode_dict view cap cat inp = Inr (m, b)"
        and v: "v = (if view then DictView m else Dict m)"
        by (auto split: sum.splits)
      from 1(2) [OF inp d] r obtain p where
        p: "inp = p @ b" "p \<noteq> []"
        and pt: "\<And>t. decode_dict view cap cat (p @ t) = Inr (m, t)" by blast
      from p inp d obtain q where q: "p = CHR ''d'' # q" by (cases p) auto
      have "decode_data view cap cat (p @ t) = Inr (v, t)" for t
        using pt [of t] q v by (simp add: decode_data.simps [of _ _ _ "CHR ''d'' # _"])
      with p show ?thesis by blast
    next
      case s
      with eq inp have dg: "isdigit c" by (auto split: if_splits)
      with s eq inp obtain str where r: "decode_str view cap cat inp = Inr (str, b)"
        and v: "v = (if view then StringView str else String str)"
        by (auto split: sum.splits)
      from decode_str_prefix [OF r] obtain p where
        p: "inp = p @ b" "p \<noteq> []" "hd p = hd inp"
        and pt: "\<And>t. decode_str view cap cat (p @ t) = Inr (str, t)" by blast
      from p inp obtain q where q: "p = c # q" by (cases p) auto
      have "decode_data view cap cat (p @ t) = Inr (v, t)" for t
        using pt [of t] q v s dg by (simp add: decode_data.simps [of _ _ _ "c # _"])
      with p show ?thesis by blast
    qed
  qed
next
  case (2 view cap cat inp)
  show ?case
  proof (intro allI impI)
    fix xs b assume eq0: "decode_list view cap cat inp = Inr (xs, b)"
    note eq = eq0 [unfolded decode_list.simps [of view cap cat inp]]
    from eq obtain c b0 where inp: "inp = c # b0" by (cases inp) auto
    from eq inp have c: "\<not> c \<noteq> CHR ''l''" by (auto split: if_splits)
    from eq inp c obtain c' where lp: "decode_list_loop view cap cat [] b0 = Inr (xs, c' # b)"
      by (auto split: sum.splits list.splits)
    from 2 [OF inp c] lp obtain p where c': "c' = CHR ''e''" and b0: "b0 = p @ c' # b"
      and pt: "\<And>t. decode_list_loop view cap cat [] (p @ CHR ''e'' # t) = Inr (xs, CHR ''e'' # t)"
      by blast
    let ?p = "c # p @ ''e''"
    have "inp = ?p @ b" using inp b0 c' by simp
    moreover have "decode_list view cap cat (?p @ t) = Inr (xs, t)" for t
      using pt [of t] c by (simp add: decode_list.simps [of _ _ _ "CHR ''l'' # _"])
    ultimately show "\<exists>p. inp = p @ b \<and> p \<noteq> [] \<and> (\<forall>t. decode_list view cap cat (p @ t) = Inr (xs, t))"
      by (intro exI [of _ ?p]) simp
  qed
next
  case (3 view cap cat val inp)
  show ?case
  proof (intro allI impI)
    fix xs b assume eq0: "decode_list_loop view cap cat val inp = Inr (xs, b)" and ne: "b \<noteq> []"
    note eq = eq0 [unfolded decode_list_loop.simps [of view cap cat val inp]]
    from eq ne obtain c cs where inp: "inp = c # cs" by (cases inp) auto
    show "\<exists>p b'. b = CHR ''e'' # b' \<and> inp = p @ b \<and>
        (\<forall>t. decode_list_loop view cap cat val (p @ CHR ''e'' # t) = Inr (xs, CHR ''e'' # t))"
    proof (cases "c = CHR ''e''")
      case True
      with eq inp have "xs = val" "b = inp" by auto
      with True inp show ?thesis
        by (intro exI [of _ "[]"] exI [of _ cs])
           (simp add: decode_list_loop.simps [of _ _ _ _ "CHR ''e'' # _"])
    next
      case False
      from eq inp False obtain x b1 where
        d: "decode_data view cap cat inp = Inr (x, b1)" and
        l: "decode_list_loop view cap cat (val @ [x]) b1 = Inr (xs, b)"
        by (auto split: sum.splits)
      from 3(1) [OF inp False] d inp obtain p1 where
        p1: "inp = p1 @ b1" "p1 \<noteq> []"
        and pt1: "\<And>t. decode_data view cap cat (p1 @ t) = Inr (x, t)" by blast
      from 3(2) [OF inp False d refl] l ne obtain p2 b' where
        b: "b = CHR ''e'' # b'" and b1: "b1 = p2 @ b"
        and pt2: "\<And>t. decode_list_loop view cap cat (val @ [x]) (p2 @ CHR ''e'' # t)
                    = Inr (xs, CHR ''e'' # t)" by blast
      from p1 inp obtain q where q: "p1 = c # q" by (cases p1) auto
      have "decode_list_loop view cap cat val ((p1 @ p2) @ CHR ''e'' # t) = Inr (xs, CHR ''e'' # t)" for t
      proof -
        have "decode_list_loop view cap cat val (c # q @ p2 @ CHR ''e'' # t)
              = decode_list_loop view cap cat (val @ [x]) (p2 @ CHR ''e'' # t)"
          using pt1 [of "p2 @ CHR ''e'' # t"] q False
          by (subst decode_list_loop.simps) simp
        with q show ?thesis by (simp add: pt2)
      qed
      with b b1 p1 show ?thesis by (intro exI [of _ "p1 @ p2"] exI [of _ b']) simp
    qed
  qed
next
  case (4 view cap cat inp)
  show ?case
  proof (intro allI impI)
    fix m b assume eq0: "decode_dict view cap cat inp = Inr (m, b)"
    note eq = eq0 [unfolded decode_dict.simps [of view cap cat inp]]
    from eq obtain c b0 where inp: "inp = c # b0" by (cases inp) auto
    from eq inp have c: "\<not> c \<noteq> CHR ''d''" by (auto split: if_splits)
    from eq inp c obtain c' where lp: "decode_dict_loop view cap cat [] b0 = Inr (m, c' # b)"
      by (auto split: sum.splits list.splits)
    from 4 [OF inp c] lp obtain p where c': "c' = CHR ''e''" and b0: "b0 = p @ c' # b"
      and pt: "\<And>t. decode_dict_loop view cap cat [] (p @ CHR ''e'' # t) = Inr (m, CHR ''e'' # t)"
      by blast
    let ?p = "c # p @ ''e''"
    have "inp = ?p @ b" using inp b0 c' by simp
    moreover have "decode_dict view cap cat (?p @ t) = Inr (m, t)" for t
      using pt [of t] c by (simp add: decode_dict.simps [of _ _ _ "CHR ''d'' # _"])
    ultimately show "\<exists>p. inp = p @ b \<and> p \<noteq> [] \<and> (\<forall>t. decode_dict view cap cat (p @ t) = Inr (m, t))"
      by (intro exI [of _ ?p]) simp
  qed
next
  case (5 view cap cat val inp)
  show ?case
  proof (intro allI impI)
    fix m b assume eq0: "decode_dict_loop view cap cat val inp = Inr (m, b)" and ne: "b \<noteq> []"
    note eq = eq0 [unfolded decode_dict_loop.simps [of view cap cat val inp]]
    from eq ne obtain c cs where inp: "inp = c # cs" by (cases inp) auto
    show "\<exists>p b'. b = CHR ''e'' # b' \<and> inp = p @ b \<and>
        (\<forall>t. decode_dict_loop view cap cat val (p @ CHR ''e'' # t) = Inr (m, CHR ''e'' # t))"
    proof (cases "c = CHR ''e''")
      case True
      with eq inp have "m = val" "b = inp" by auto
      with True inp show ?thesis
        by (intro exI [of _ "[]"] exI [of _ cs])
           (simp add: decode_dict_loop.simps [of _ _ _ _ "CHR ''e'' # _"])
    next
      case False
      from eq inp False have dg: "\<not> \<not> isdigit c" by (auto split: if_splits)
      from eq inp False dg obtain k b1 where
        s: "decode_str view cap cat inp = Inr (k, b1)"
        by (auto split: sum.splits)
      from eq inp False dg s obtain v b2 where
        d: "decode_data view cap cat b1 = Inr (v, b2)"
        by (auto split: sum.splits)
      obtain val' k' ins where e: "emplace val k v = (val', k', ins)"
        by (cases "emplace val k v") auto
      from eq inp False dg s d e have ins: "\<not> \<not> ins" and
        l: "decode_dict_loop view cap cat val' b2 = Inr (m, b)"
        by (auto split: if_splits)
      from 5(2) [OF inp False dg s refl d refl e [symmetric] refl ins] l ne obtain p3 b' where
        b: "b = CHR ''e'' # b'" and b2: "b2 = p3 @ b"
        and pt3: "\<And>t. decode_dict_loop view cap cat val' (p3 @ CHR ''e'' # t)
                    = Inr (m, CHR ''e'' # t)" by blast
      from decode_str_prefix [OF s] obtain p1 where
        p1: "inp = p1 @ b1" "p1 \<noteq> []" "hd p1 = hd inp"
        and pt1: "\<And>t. decode_str view cap cat (p1 @ t) = Inr (k, t)" by blast
      from d b2 b have "b1 \<noteq> []" by (auto simp: decode_data.simps [of _ _ _ "[]"])
      with 5(1) [OF inp False dg s refl] d obtain p2 where
        p2: "b1 = p2 @ b2" "p2 \<noteq> []"
        and pt2: "\<And>t. decode_data view cap cat (p2 @ t) = Inr (v, t)" by blast
      from p1 inp obtain q where q: "p1 = c # q" by (cases p1) auto
      have "decode_dict_loop view cap cat val ((p1 @ p2 @ p3) @ CHR ''e'' # t) = Inr (m, CHR ''e'' # t)" for t
      proof -
        have "decode_dict_loop view cap cat val (c # q @ p2 @ p3 @ CHR ''e'' # t)
              = decode_dict_loop view cap cat val' (p3 @ CHR ''e'' # t)"
          using pt1 [of "p2 @ p3 @ CHR ''e'' # t"] pt2 [of "p3 @ CHR ''e'' # t"] q False dg e ins
          by (subst decode_dict_loop.simps) simp
        with q show ?thesis by (simp add: pt3)
      qed
      with b b2 p1 p2 show ?thesis by (intro exI [of _ "p1 @ p2 @ p3"] exI [of _ b']) simp
    qed
  qed
qed

lemma decode_example_trailing:
  "decode string_max_size input_iterator ''4:spamXYZ'' = Inr (String ''spam'', ''XYZ'')"
  using decode_encoded [OF _ encode_examples(2), of string_max_size input_iterator "''XYZ''"]
  by (simp add: fits_string_max_size)

text \<open>
  C10. Decoding consumes one value and no more. The encoding of a well-formed value,
  followed by any bytes \<open>t\<close>, decodes to that value with \<^verbatim>\<open>begin\<close> left at \<open>t\<close>. And for
  every non-empty input at all on which decoding succeeds, the input is a consumed
  part \<open>p\<close> followed by the returned rest, and \<open>p\<close> followed by any other bytes
  decodes to the same value and stops right after \<open>p\<close>.
\<close>

theorem decode_consumes_one_value:
  "(well_formed cap v \<and> encode v = Inr s \<longrightarrow> decode cap cat (s @ t) = Inr (v, t)) \<and>
   (decode cap cat inp = Inr (w, b) \<and> inp \<noteq> [] \<longrightarrow>
      (\<exists>p. inp = p @ b \<and> p \<noteq> [] \<and> (\<forall>t'. decode cap cat (p @ t') = Inr (w, t'))))"
proof (intro conjI impI)
  assume "well_formed cap v \<and> encode v = Inr s"
  with read_back [of cap v cat] show "decode cap cat (s @ t) = Inr (v, t)"
    by (auto simp: reads_back_def decode_def)
next
  assume "decode cap cat inp = Inr (w, b) \<and> inp \<noteq> []"
  with decode_prefix_all(1) [of False cap cat inp]
  show "\<exists>p. inp = p @ b \<and> p \<noteq> [] \<and> (\<forall>t'. decode cap cat (p @ t') = Inr (w, t'))"
    by (simp add: decode_def)
qed

theorem decode_consumes_one_value_witness:
  "decode string_max_size forward_iterator ''i42egarbage'' = Inr (Integer 42, ''garbage'') \<and>
   (\<exists>p. ''4:spamXYZ'' = p @ ''XYZ'' \<and> p \<noteq> [] \<and>
      (\<forall>t. decode string_max_size input_iterator (p @ t) = Inr (String ''spam'', t)))"
proof -
  have e: "encode (Integer 42) = Inr ''i42e''"
    by code_simp
  have w: "well_formed string_max_size (Integer 42)" by simp
  note th = decode_consumes_one_value
  from th [of string_max_size "Integer 42" "''i42e''" forward_iterator "''garbage''"] e w
  have 1: "decode string_max_size forward_iterator ''i42egarbage'' = Inr (Integer 42, ''garbage'')" by simp
  from th [of string_max_size _ _ input_iterator _ "''4:spamXYZ''" "String ''spam''" "''XYZ''"]
    decode_example_trailing
  have 2: "\<exists>p. ''4:spamXYZ'' = p @ ''XYZ'' \<and> p \<noteq> [] \<and>
      (\<forall>t. decode string_max_size input_iterator (p @ t) = Inr (String ''spam'', t))" by simp
  from 1 2 show ?thesis by simp
qed

section \<open>Encoding\<close>

lemma encode_dict_items_concat:
  "\<forall>(k, v) \<in> set m. encode v = Inr (f v) \<Longrightarrow>
   encode_dict_items m = Inr (concat (map (\<lambda>(k, v). encode_string k @ f v) m))"
  by (induction m) auto

lemma build_dict_example:
  "build_dict [(''spam'', Integer 1), (''cow'', Integer (- 2)), (''eggs'', String ''x'')]
     = [(''cow'', Integer (- 2)), (''eggs'', String ''x''), (''spam'', Integer 1)]"
  by code_simp

lemma encode_values_example:
  "\<forall>(k, v) \<in> set [(''cow'', Integer (- 2)), (''eggs'', String ''x''), (''spam'', Integer 1)].
     encode v = Inr ((\<lambda>v. case v of Integer n \<Rightarrow> (if n = 1 then ''i1e'' else ''i-2e'') | _ \<Rightarrow> ''1:x'') v)"
  by code_simp

text \<open>
  C7. The tokens of the encoder. An integer is \<^verbatim>\<open>'i'\<close>, then \<^verbatim>\<open>'-'\<close> if and only if it is
  negative, then the decimal digits of its magnitude, then \<^verbatim>\<open>'e'\<close>; the digits of a
  number \<open>j\<close> are digits, denote \<open>j\<close>, and start with \<^verbatim>\<open>'0'\<close> only when they are
  \<^verbatim>\<open>"0"\<close>, which never follows a \<^verbatim>\<open>'-'\<close>. A string is the digits of its size, \<^verbatim>\<open>':'\<close>
  and its bytes. A dict is \<^verbatim>\<open>'d'\<close>, its entries (key, then value) in the order of the
  map, and \<^verbatim>\<open>'e'\<close>; and a map built by \<^verbatim>\<open>emplace\<close> calls in any order holds the same
  keys in strictly ascending order.
\<close>

theorem encode_tokens:
  "encode (Integer n) =
     Inr (''i'' @ (if sint n < 0 then ''-'' @ digits_of (nat (- sint n))
                   else digits_of (nat (sint n))) @ ''e'') \<and>
   (sint n < 0 \<longrightarrow> hd (digits_of (nat (- sint n))) \<noteq> CHR ''0'') \<and>
   digits_of j \<noteq> [] \<and> list_all isdigit (digits_of j) \<and> decimal (digits_of j) = j \<and>
   (hd (digits_of j) = CHR ''0'' \<longrightarrow> digits_of j = ''0'') \<and>
   encode (String s) = Inr (digits_of (length s) @ '':'' @ s) \<and>
   ((\<forall>(k, v) \<in> set m. encode v = Inr (f v)) \<longrightarrow>
      encode (Dict m) = Inr (''d'' @ concat (map (\<lambda>(k, v). encode_string k @ f v) m) @ ''e'')) \<and>
   sorted_wrt (<) (map fst (build_dict kvs)) \<and> fst ` set (build_dict kvs) = fst ` set kvs"
proof (intro conjI impI)
  show "encode (Integer n) =
     Inr (''i'' @ (if sint n < 0 then ''-'' @ digits_of (nat (- sint n))
                   else digits_of (nat (sint n))) @ ''e'')"
    by (simp add: encode_integer_def show_integer_def)
  show "hd (digits_of (nat (- sint n))) \<noteq> CHR ''0''" if neg: "sint n < 0"
  proof
    assume "hd (digits_of (nat (- sint n))) = CHR ''0''"
    then have "digits_of (nat (- sint n)) = ''0''" by (rule digits_of_no_leading_zero)
    then have "nat (- sint n) = 0" by (rule digits_of_zero_iff)
    with neg show False by simp
  qed
  show "digits_of j \<noteq> []" by (rule digits_of_nonempty)
  show "list_all isdigit (digits_of j)" by (rule digits_of_all_digits)
  show "decimal (digits_of j) = j" by (rule decimal_digits_of)
  show "digits_of j = ''0''" if "hd (digits_of j) = CHR ''0''"
    using that by (rule digits_of_no_leading_zero)
  show "encode (String s) = Inr (digits_of (length s) @ '':'' @ s)"
    by (simp add: encode_string_def)
  show "encode (Dict m) = Inr (''d'' @ concat (map (\<lambda>(k, v). encode_string k @ f v) m) @ ''e'')"
    if "\<forall>(k, v) \<in> set m. encode v = Inr (f v)"
    using encode_dict_items_concat [OF that] by simp
  show "sorted_wrt (<) (map fst (build_dict kvs))" using build_dict_sorted [of kvs] by simp
  show "fst ` set (build_dict kvs) = fst ` set kvs" using build_dict_sorted [of kvs] by simp
qed

theorem encode_tokens_witness:
  "encode (Integer (- 2)) = Inr ''i-2e'' \<and>
   encode (String ''spam'') = Inr ''4:spam'' \<and>
   encode (Dict (build_dict [(''spam'', Integer 1), (''cow'', Integer (- 2)), (''eggs'', String ''x'')]))
     = Inr ''d3:cowi-2e4:eggs1:x4:spami1ee''"
proof -
  let ?f = "\<lambda>v. case v of Integer n \<Rightarrow> (if n = 1 then ''i1e'' else ''i-2e'') | _ \<Rightarrow> ''1:x''"
  let ?m = "[(''cow'', Integer (- 2)), (''eggs'', String ''x''), (''spam'', Integer 1)]"
  note th = encode_tokens [of "- 2" 2 "''spam''" ?m ?f "[]"]
  note c2 = conjunct2
  have e1: "''i'' @ (if sint (- 2 :: 64 word) < 0 then ''-'' @ digits_of (nat (- sint (- 2 :: 64 word)))
                   else digits_of (nat (sint (- 2 :: 64 word)))) @ ''e'' = ''i-2e''"
    by code_simp
  have e2: "digits_of (length ''spam'') @ '':'' @ ''spam'' = ''4:spam''"
    by code_simp
  have e3: "''d'' @ concat (map (\<lambda>(k, v). encode_string k @ ?f v) ?m) @ ''e''
            = ''d3:cowi-2e4:eggs1:x4:spami1ee''"
    by code_simp
  from th [THEN conjunct1] have 1: "encode (Integer (- 2)) = Inr ''i-2e''"
    by (simp only: e1)
  from th [THEN c2, THEN c2, THEN c2, THEN c2, THEN c2, THEN c2, THEN conjunct1]
  have 2: "encode (String ''spam'') = Inr ''4:spam''"
    by (simp only: e2)
  from th [THEN c2, THEN c2, THEN c2, THEN c2, THEN c2, THEN c2, THEN c2, THEN conjunct1]
    encode_values_example
  have "encode (Dict ?m) =
     Inr (''d'' @ concat (map (\<lambda>(k, v). encode_string k @ ?f v) ?m) @ ''e'')" by blast
  then have 3: "encode (Dict ?m) = Inr ''d3:cowi-2e4:eggs1:x4:spami1ee''"
    by (simp only: e3)
  from 1 2 3 show ?thesis by (simp only: build_dict_example simp_thms)
qed

end
